theory Spec2Isabelle
  imports Complex_Main "HOL-Library.Multiset" "HOL-Library.List_Lexorder" "HOL-Library.Char_ord"
begin

section \<open>Data model (types/index.ts)\<close>

text \<open>
  A \<open>UserId\<close> is a JavaScript string. Identifiers are modelled as \<open>string\<close>, one
  \<open>char\<close> per code unit, so the model covers identifiers whose code units are below 256.
  A \<open>Date\<close> is a time stamp; \<open>new Date()\<close> reads the clock, so every operation that
  calls it takes the current time as an argument.
\<close>

type_synonym UserId = string
type_synonym Date = nat

record UserNode =
  userId :: UserId
  directReferrals :: "UserId list"
  parent :: "UserId option"
  createdAt :: Date

record ReferralRelationship =
  referrer :: UserId
  candidate :: UserId
  createdAt :: Date

record ReferralNetworkConfig =
  allowSelfReferrals :: bool
  allowMultipleReferrers :: bool
  allowCycles :: bool
  maxNetworkSize :: "int option"
  maxReferralsPerUser :: "int option"

record NetworkStats =
  totalUsers :: nat
  totalReferrals :: nat
  maxDepth :: nat
  averageReferralsPerUser :: real

datatype ReferralErrorType =
  SELF_REFERRAL | MULTIPLE_REFERRERS | CYCLE_DETECTED | NETWORK_SIZE_LIMIT
  | REFERRAL_LIMIT | USER_NOT_FOUND | INVALID_INPUT | STORAGE_ERROR

text \<open>
  A \<open>ReferralError\<close> carries its type and its message; the \<open>details\<close> payload only echoes
  the arguments of the call and is left out. A \<open>Result\<close> is a sum: \<open>Inl\<close> is
  \<open>{success: false, error}\<close> and \<open>Inr\<close> is \<open>{success: true, data}\<close>.
\<close>

datatype ReferralError = ReferralError (errorType: ReferralErrorType) (message: string)

type_synonym 'a Result = "ReferralError + 'a"

section \<open>JavaScript \<open>Map\<close> as an insertion-ordered association list\<close>

text \<open>
  \<open>Map.set\<close> overwrites the value of a key that is present and keeps its position, and
  appends a key that is absent; \<open>Map.get\<close> is \<open>map_of\<close>; \<open>Map.values()\<close> lists the values
  in insertion order.
\<close>

fun map_set :: "('k \<times> 'v) list \<Rightarrow> 'k \<Rightarrow> 'v \<Rightarrow> ('k \<times> 'v) list" where
  "map_set [] k v = [(k, v)]"
| "map_set ((k', v') # m) k v = (if k' = k then (k', v) # m else (k', v') # map_set m k v)"

definition map_has :: "('k \<times> 'v) list \<Rightarrow> 'k \<Rightarrow> bool" where
  "map_has m k = (map_of m k \<noteq> None)"

definition map_values :: "('k \<times> 'v) list \<Rightarrow> 'v list" where
  "map_values m = map snd m"

section \<open>InMemoryStorage\<close>

record InMemoryStorage =
  users :: "(UserId \<times> UserNode) list"
  referrals :: "(string \<times> ReferralRelationship) list"
  isInitialized :: bool

definition newStorage :: InMemoryStorage where
  "newStorage = \<lparr>users = [], referrals = [], isInitialized = False\<rparr>"

text \<open>\<open>initialize\<close> empties both maps of a storage that is not yet initialised.\<close>

definition storage_initialize :: "InMemoryStorage \<Rightarrow> InMemoryStorage" where
  "storage_initialize s =
     (if InMemoryStorage.isInitialized s then s
      else \<lparr>users = [], referrals = [], isInitialized = True\<rparr>)"

definition addUser :: "InMemoryStorage \<Rightarrow> UserId \<Rightarrow> Date \<Rightarrow> InMemoryStorage" where
  "addUser s uid now =
     (if map_has (users s) uid then s
      else s\<lparr>users := map_set (users s) uid
                 \<lparr>userId = uid, directReferrals = [], parent = None, UserNode.createdAt = now\<rparr>\<rparr>)"

text \<open>
  \<open>modifyUser\<close> is a write through the object reference that \<open>users.get(uid)\<close> returns:
  the node stored under \<open>uid\<close> is replaced by its updated version, in place.
\<close>

definition modifyUser ::
  "InMemoryStorage \<Rightarrow> UserId \<Rightarrow> (UserNode \<Rightarrow> UserNode) \<Rightarrow> InMemoryStorage" where
  "modifyUser s uid f =
     (case map_of (users s) uid of
        None \<Rightarrow> s
      | Some node \<Rightarrow> s\<lparr>users := map_set (users s) uid (f node)\<rparr>)"

definition referralKey :: "UserId \<Rightarrow> UserId \<Rightarrow> string" where
  "referralKey ref cand = ref @ '':'' @ cand"

text \<open>
  \<open>addReferral\<close> of the storage fetches the two nodes and then writes through both
  references; when referrer and candidate are the same user both writes reach the same
  node, as they do here, where the second \<open>modifyUser\<close> reads what the first has written.
\<close>

definition storage_addReferral ::
  "InMemoryStorage \<Rightarrow> UserId \<Rightarrow> UserId \<Rightarrow> Date \<Rightarrow> InMemoryStorage" where
  "storage_addReferral s ref cand now =
     (let s1 = s\<lparr>referrals := map_set (referrals s) (referralKey ref cand)
                     \<lparr>referrer = ref, candidate = cand, createdAt = now\<rparr>\<rparr>;
          s2 = addUser s1 ref now;
          s3 = addUser s2 cand now;
          s4 = modifyUser s3 ref
                 (\<lambda>referrerNode.
                    if cand \<in> set (directReferrals referrerNode) then referrerNode
                    else referrerNode\<lparr>directReferrals := directReferrals referrerNode @ [cand]\<rparr>)
      in modifyUser s4 cand (\<lambda>candidateNode. candidateNode\<lparr>parent := Some ref\<rparr>))"

definition storage_getAllUsers :: "InMemoryStorage \<Rightarrow> UserNode list" where
  "storage_getAllUsers s = map_values (users s)"

definition getDirectReferrals :: "InMemoryStorage \<Rightarrow> UserId \<Rightarrow> UserId list" where
  "getDirectReferrals s uid =
     (case map_of (users s) uid of None \<Rightarrow> [] | Some user \<Rightarrow> directReferrals user)"

text \<open>\<open>user?.parent || null\<close>: an absent user, an absent parent and the empty string give null.\<close>

definition storage_getParent :: "InMemoryStorage \<Rightarrow> UserId \<Rightarrow> UserId option" where
  "storage_getParent s uid =
     (case map_of (users s) uid of
        None \<Rightarrow> None
      | Some user \<Rightarrow>
          (case parent user of None \<Rightarrow> None | Some p \<Rightarrow> if p = [] then None else Some p))"

subsection \<open>\<open>getAllReferrals\<close>: depth-first traversal\<close>

text \<open>
  The closure \<open>dfs\<close> mutates the set \<open>visited\<close> and the array \<open>result\<close>; the model
  passes both as a pair. \<open>dfs_for\<close> is the \<open>for\<close> loop over the children of a user.
  A \<open>Set\<close> is modelled as the list of its members in insertion order. The model
  does not bound the depth of the recursion.
\<close>

function dfs ::
    "InMemoryStorage \<Rightarrow> UserId \<Rightarrow> UserId list \<times> UserId list \<Rightarrow> UserId list \<times> UserId list"
  and dfs_for ::
    "InMemoryStorage \<Rightarrow> UserId list \<Rightarrow> UserId list \<times> UserId list \<Rightarrow> UserId list \<times> UserId list"
where
  "dfs s currentUserId (visited, result) =
     (if currentUserId \<in> set visited then (visited, result)
      else (case map_of (users s) currentUserId of
              None \<Rightarrow> (visited @ [currentUserId], result)
            | Some user \<Rightarrow>
                dfs_for s (directReferrals user) (visited @ [currentUserId], result)))"
| "dfs_for s [] st = st"
| "dfs_for s (childId # rest) (visited, result) =
     dfs_for s rest (dfs s childId (visited, result @ [childId]))"
  by pat_completeness auto

lemma dfs_visited_grows:
  "dfs_dfs_for_dom (Inl (s, u, st)) \<Longrightarrow> set (fst st) \<subseteq> set (fst (dfs s u st))"
  "dfs_dfs_for_dom (Inr (s, cs, st)) \<Longrightarrow> set (fst st) \<subseteq> set (fst (dfs_for s cs st))"
proof (induction s u st and s cs st rule: dfs_dfs_for.pinduct)
  case (1 s currentUserId visited result)
  then show ?case
    by (auto simp: dfs.psimps split: option.splits)
next
  case (2 s st)
  then show ?case by (simp add: dfs_for.psimps)
next
  case (3 s childId rest visited result)
  then show ?case
    by (cases "dfs s childId (visited, result @ [childId])") (auto simp: dfs_for.psimps)
qed

definition dfs_measure ::
  "InMemoryStorage \<times> UserId \<times> UserId list \<times> UserId list
     + InMemoryStorage \<times> UserId list \<times> UserId list \<times> UserId list \<Rightarrow> nat \<times> nat" where
  "dfs_measure x =
     (case x of
        Inl (s, u, st) \<Rightarrow> (card (fst ` set (users s) - set (fst st)), 0)
      | Inr (s, cs, st) \<Rightarrow> (card (fst ` set (users s) - set (fst st)), Suc (length cs)))"

termination dfs
proof (relation "inv_image (less_than <*lex*> less_than) dfs_measure")
  show "wf (inv_image (less_than <*lex*> less_than) dfs_measure)"
    by (intro wf_inv_image wf_lex_prod wf_less_than)
next
  fix s :: InMemoryStorage and currentUserId visited and result :: "UserId list" and x2
  assume a: "currentUserId \<notin> set visited" "map_of (users s) currentUserId = Some x2"
  have "currentUserId \<in> fst ` set (users s)"
    using a(2) by (metis domI dom_map_of_conv_image_fst)
  then have "card (fst ` set (users s) - set (visited @ [currentUserId]))
      < card (fst ` set (users s) - set visited)"
    using a(1) by (intro psubset_card_mono) auto
  then show "(Inr (s, directReferrals x2, visited @ [currentUserId], result),
        Inl (s, currentUserId, visited, result))
       \<in> inv_image (less_than <*lex*> less_than) dfs_measure"
    by (simp add: dfs_measure_def)
next
  fix s :: InMemoryStorage and childId rest visited and result :: "UserId list"
  show "(Inl (s, childId, visited, result @ [childId]), Inr (s, childId # rest, visited, result))
       \<in> inv_image (less_than <*lex*> less_than) dfs_measure"
    by (simp add: dfs_measure_def)
next
  fix s :: InMemoryStorage and childId rest visited and result :: "UserId list"
  assume "dfs_dfs_for_dom (Inl (s, childId, visited, result @ [childId]))"
  then have "set visited \<subseteq> set (fst (dfs s childId (visited, result @ [childId])))"
    using dfs_visited_grows(1) by fastforce
  then have "card (fst ` set (users s) - set (fst (dfs s childId (visited, result @ [childId]))))
      \<le> card (fst ` set (users s) - set visited)"
    by (intro card_mono) auto
  then show "(Inr (s, rest, dfs s childId (visited, result @ [childId])),
        Inr (s, childId # rest, visited, result))
       \<in> inv_image (less_than <*lex*> less_than) dfs_measure"
    by (auto simp: dfs_measure_def)
qed

definition getAllReferrals :: "InMemoryStorage \<Rightarrow> UserId \<Rightarrow> UserId list" where
  "getAllReferrals s uid = snd (dfs s uid ([], []))"

subsection \<open>\<open>calculateDepth\<close> and \<open>getNetworkStats\<close>\<close>

text \<open>
  The closure \<open>dfs\<close> of \<open>calculateDepth\<close> returns a depth and mutates \<open>visited\<close>;
  \<open>depth_for\<close> is its loop over the children, with \<open>maxChildDepth\<close> as accumulator.
\<close>

function depth_dfs :: "InMemoryStorage \<Rightarrow> UserId \<Rightarrow> UserId list \<Rightarrow> nat \<times> UserId list"
  and depth_for ::
    "InMemoryStorage \<Rightarrow> UserId list \<Rightarrow> nat \<times> UserId list \<Rightarrow> nat \<times> UserId list"
where
  "depth_dfs s currentUserId visited =
     (if currentUserId \<in> set visited then (0, visited)
      else (case map_of (users s) currentUserId of
              None \<Rightarrow> (0, visited @ [currentUserId])
            | Some user \<Rightarrow>
                if directReferrals user = [] then (0, visited @ [currentUserId])
                else (let r = depth_for s (directReferrals user) (0, visited @ [currentUserId])
                      in (1 + fst r, snd r))))"
| "depth_for s [] st = st"
| "depth_for s (childId # rest) (maxChildDepth, visited) =
     (let r = depth_dfs s childId visited
      in depth_for s rest (max maxChildDepth (fst r), snd r))"
  by pat_completeness auto

lemma depth_visited_grows:
  "depth_dfs_depth_for_dom (Inl (s, u, visited)) \<Longrightarrow>
     set visited \<subseteq> set (snd (depth_dfs s u visited))"
  "depth_dfs_depth_for_dom (Inr (s, cs, st)) \<Longrightarrow>
     set (snd st) \<subseteq> set (snd (depth_for s cs st))"
proof (induction s u visited and s cs st rule: depth_dfs_depth_for.pinduct)
  case (1 s currentUserId visited)
  then show ?case
    by (auto simp: depth_dfs.psimps Let_def split: option.splits)
next
  case (2 s st)
  then show ?case by (simp add: depth_for.psimps)
next
  case (3 s childId rest maxChildDepth visited)
  then show ?case
    by (auto simp: depth_for.psimps Let_def)
qed

definition depth_measure ::
  "InMemoryStorage \<times> UserId \<times> UserId list
     + InMemoryStorage \<times> UserId list \<times> nat \<times> UserId list \<Rightarrow> nat \<times> nat" where
  "depth_measure x =
     (case x of
        Inl (s, u, visited) \<Rightarrow> (card (fst ` set (users s) - set visited), 0)
      | Inr (s, cs, st) \<Rightarrow> (card (fst ` set (users s) - set (snd st)), Suc (length cs)))"

termination depth_dfs
proof (relation "inv_image (less_than <*lex*> less_than) depth_measure")
  show "wf (inv_image (less_than <*lex*> less_than) depth_measure)"
    by (intro wf_inv_image wf_lex_prod wf_less_than)
next
  fix s :: InMemoryStorage and currentUserId and visited :: "UserId list" and x2
  assume a: "currentUserId \<notin> set visited" "map_of (users s) currentUserId = Some x2"
  have "currentUserId \<in> fst ` set (users s)"
    using a(2) by (metis domI dom_map_of_conv_image_fst)
  then have "card (fst ` set (users s) - set (visited @ [currentUserId]))
      < card (fst ` set (users s) - set visited)"
    using a(1) by (intro psubset_card_mono) auto
  then show "(Inr (s, directReferrals x2, 0, visited @ [currentUserId]),
        Inl (s, currentUserId, visited))
       \<in> inv_image (less_than <*lex*> less_than) depth_measure"
    by (simp add: depth_measure_def)
next
  fix s :: InMemoryStorage and childId rest and maxChildDepth :: nat and visited :: "UserId list"
  show "(Inl (s, childId, visited), Inr (s, childId # rest, maxChildDepth, visited))
       \<in> inv_image (less_than <*lex*> less_than) depth_measure"
    by (simp add: depth_measure_def)
next
  fix s :: InMemoryStorage and childId rest and maxChildDepth :: nat
    and visited :: "UserId list" and x
  assume "x = depth_dfs s childId visited"
    and "depth_dfs_depth_for_dom (Inl (s, childId, visited))"
  then have "set visited \<subseteq> set (snd x)"
    using depth_visited_grows(1) by blast
  then have "card (fst ` set (users s) - set (snd x)) \<le> card (fst ` set (users s) - set visited)"
    by (intro card_mono) auto
  then show "(Inr (s, rest, max maxChildDepth (fst x), snd x),
        Inr (s, childId # rest, maxChildDepth, visited))
       \<in> inv_image (less_than <*lex*> less_than) depth_measure"
    by (auto simp: depth_measure_def)
qed

definition calculateDepth :: "InMemoryStorage \<Rightarrow> UserId \<Rightarrow> nat" where
  "calculateDepth s uid = fst (depth_dfs s uid [])"

text \<open>
  The loop of \<open>getNetworkStats\<close> over all users, with \<open>maxDepth\<close> and
  \<open>totalReferralsPerUser\<close> as accumulators. The average is a JavaScript number; the
  model keeps the exact quotient.
\<close>

fun stats_for :: "InMemoryStorage \<Rightarrow> UserNode list \<Rightarrow> nat \<times> nat \<Rightarrow> nat \<times> nat" where
  "stats_for s [] acc = acc"
| "stats_for s (user # rest) (maxDepth', totalReferralsPerUser) =
     stats_for s rest
       (max maxDepth' (calculateDepth s (userId user)),
        totalReferralsPerUser + length (directReferrals user))"

definition storage_getNetworkStats :: "InMemoryStorage \<Rightarrow> NetworkStats" where
  "storage_getNetworkStats s =
     (let us = map_values (users s);
          totalUsers' = length us;
          totalReferrals' = length (referrals s);
          acc = stats_for s us (0, 0)
      in \<lparr>totalUsers = totalUsers',
          totalReferrals = totalReferrals',
          maxDepth = fst acc,
          averageReferralsPerUser =
            (if totalUsers' > 0 then real (snd acc) / real totalUsers' else 0)\<rparr>)"

subsection \<open>\<open>canReach\<close>: breadth-first search\<close>

text \<open>
  \<open>canReach_for\<close> is the inner loop over the children of the dequeued user: \<open>Inl True\<close>
  is the early \<open>return true\<close>, \<open>Inr\<close> carries the queue and the visited set on to the
  next iteration of the \<open>while\<close> loop, which is \<open>canReach_while\<close>.
\<close>

fun canReach_for ::
  "UserId \<Rightarrow> UserId list \<Rightarrow> UserId list \<times> UserId list \<Rightarrow> bool + UserId list \<times> UserId list"
where
  "canReach_for target [] st = Inr st"
| "canReach_for target (childId # rest) (queue, visited) =
     (if childId = target then Inl True
      else if childId \<notin> set visited
        then canReach_for target rest (queue @ [childId], visited @ [childId])
        else canReach_for target rest (queue, visited))"

definition allChildren :: "InMemoryStorage \<Rightarrow> UserId set" where
  "allChildren s = (\<Union>node \<in> snd ` set (users s). set (directReferrals node))"

lemma canReach_for_measure:
  "canReach_for target cs (queue, visited) = Inr (queue', visited') \<Longrightarrow>
   set cs \<subseteq> U \<Longrightarrow> finite U \<Longrightarrow>
   length queue' + card (U - set visited') = length queue + card (U - set visited)"
proof (induction cs arbitrary: queue visited)
  case Nil
  then show ?case by simp
next
  case (Cons c cs)
  show ?case
  proof (cases "c \<in> set visited")
    case True
    then show ?thesis using Cons by (auto split: if_splits)
  next
    case False
    have neq: "c \<noteq> target" using Cons.prems(1) by (auto split: if_splits)
    have step: "canReach_for target cs (queue @ [c], visited @ [c]) = Inr (queue', visited')"
      using Cons.prems(1) False neq by simp
    have "length queue' + card (U - set visited')
        = length (queue @ [c]) + card (U - set (visited @ [c]))"
      using Cons.IH[OF step] Cons.prems by simp
    moreover have "U - set (visited @ [c]) = (U - set visited) - {c}" by auto
    moreover have "c \<in> U - set visited" using False Cons.prems(2) by auto
    moreover have "finite (U - set visited)" using Cons.prems(3) by simp
    ultimately show ?thesis
      using card_Suc_Diff1[of "U - set visited" c] by simp
  qed
qed

function canReach_while :: "InMemoryStorage \<Rightarrow> UserId \<Rightarrow> UserId list \<times> UserId list \<Rightarrow> bool"
where
  "canReach_while s target ([], visited) = False"
| "canReach_while s target (current # queue, visited) =
     (case map_of (users s) current of
        None \<Rightarrow> canReach_while s target (queue, visited)
      | Some user \<Rightarrow>
          (case canReach_for target (directReferrals user) (queue, visited) of
             Inl b \<Rightarrow> b
           | Inr st \<Rightarrow> canReach_while s target st))"
  by pat_completeness auto

termination canReach_while
proof (relation "measure (\<lambda>(s, target, queue, visited).
    length queue + card (allChildren s - set visited))")
  show "wf (measure (\<lambda>(s, target, queue, visited).
    length queue + card (allChildren s - set visited)))"
    by simp
next
  fix s :: InMemoryStorage and target current :: UserId and queue visited :: "UserId list"
  show "((s, target, queue, visited), s, target, current # queue, visited)
       \<in> measure (\<lambda>(s, target, queue, visited).
    length queue + card (allChildren s - set visited))"
    by simp
next
  fix s :: InMemoryStorage and target current :: UserId and queue visited :: "UserId list"
    and x2 and st :: "UserId list \<times> UserId list"
  assume a: "map_of (users s) current = Some x2"
    "canReach_for target (directReferrals x2) (queue, visited) = Inr st"
  obtain queue' visited' where st: "st = (queue', visited')" by (cases st)
  have "(current, x2) \<in> set (users s)" using a(1) by (rule map_of_SomeD)
  then have sub: "set (directReferrals x2) \<subseteq> allChildren s"
    by (force simp: allChildren_def)
  have fin: "finite (allChildren s)" by (simp add: allChildren_def)
  have "length queue' + card (allChildren s - set visited')
      = length queue + card (allChildren s - set visited)"
    using canReach_for_measure[OF a(2)[unfolded st] sub fin] .
  then show "((s, target, st), s, target, current # queue, visited)
       \<in> measure (\<lambda>(s, target, queue, visited).
    length queue + card (allChildren s - set visited))"
    by (simp add: st)
qed

definition canReach :: "InMemoryStorage \<Rightarrow> UserId \<Rightarrow> UserId \<Rightarrow> bool" where
  "canReach s start target =
     (if start = target then True else canReach_while s target ([start], [start]))"

definition wouldCreateCycle :: "InMemoryStorage \<Rightarrow> UserId \<Rightarrow> UserId \<Rightarrow> bool" where
  "wouldCreateCycle s ref cand = canReach s cand ref"

section \<open>ReferralNetwork\<close>

record ReferralNetwork =
  storage :: InMemoryStorage
  config :: ReferralNetworkConfig
  isInitialized :: bool

definition defaultConfig :: ReferralNetworkConfig where
  "defaultConfig =
     \<lparr>allowSelfReferrals = False, allowMultipleReferrers = False, allowCycles = False,
      maxNetworkSize = None, maxReferralsPerUser = None\<rparr>"

text \<open>
  The constructor, with the configuration already merged over the defaults and the storage
  the caller passes, or a new \<open>InMemoryStorage\<close> when the caller passes none.
\<close>

definition newReferralNetwork ::
  "ReferralNetworkConfig \<Rightarrow> InMemoryStorage option \<Rightarrow> ReferralNetwork" where
  "newReferralNetwork cfg st =
     \<lparr>storage = (case st of None \<Rightarrow> newStorage | Some s \<Rightarrow> s),
      config = cfg, isInitialized = False\<rparr>"

text \<open>\<open>initialize()\<close> without a storage configuration, as \<open>ensureInitialized\<close> calls it.\<close>

definition initialize :: "ReferralNetwork \<Rightarrow> ReferralNetwork" where
  "initialize n =
     (if isInitialized n then n
      else n\<lparr>storage := storage_initialize (storage n), isInitialized := True\<rparr>)"

definition ensureInitialized :: "ReferralNetwork \<Rightarrow> ReferralNetwork" where
  "ensureInitialized n = (if \<not> isInitialized n then initialize n else n)"

text \<open>
  \<open>String.prototype.trim\<close> removes white space and line terminators at both ends; below
  code unit 256 these are the seven characters of \<open>isWhiteSpace\<close>.
\<close>

definition isWhiteSpace :: "char \<Rightarrow> bool" where
  "isWhiteSpace c =
     (c \<in> set [CHR 0x09, CHR 0x0A, CHR 0x0B, CHR 0x0C, CHR 0x0D, CHR 0x20, CHR 0xA0])"

definition trim :: "string \<Rightarrow> string" where
  "trim str = rev (dropWhile isWhiteSpace (rev (dropWhile isWhiteSpace str)))"

definition isValidUserId :: "UserId \<Rightarrow> bool" where
  "isValidUserId uid = (length (trim uid) > 0)"

definition validateReferralInput :: "UserId \<Rightarrow> UserId \<Rightarrow> unit Result" where
  "validateReferralInput ref cand =
     (if \<not> isValidUserId ref then Inl (ReferralError INVALID_INPUT ''Invalid referrer ID'')
      else if \<not> isValidUserId cand then Inl (ReferralError INVALID_INPUT ''Invalid candidate ID'')
      else Inr ())"

text \<open>
  A limit of the configuration is checked when it is truthy: present and not zero.
\<close>

definition validateReferralConstraints ::
  "ReferralNetworkConfig \<Rightarrow> InMemoryStorage \<Rightarrow> UserId \<Rightarrow> UserId \<Rightarrow> unit Result" where
  "validateReferralConstraints cfg s ref cand =
     (if \<not> allowSelfReferrals cfg \<and> ref = cand
        then Inl (ReferralError SELF_REFERRAL ''Self-referrals are not allowed'')
      else if \<not> allowMultipleReferrers cfg \<and>
              (case storage_getParent s cand of
                 None \<Rightarrow> False
               | Some existingParent \<Rightarrow> existingParent \<noteq> ref)
        then Inl (ReferralError MULTIPLE_REFERRERS ''Candidate already has a referrer'')
      else if \<not> allowCycles cfg \<and> wouldCreateCycle s ref cand
        then Inl (ReferralError CYCLE_DETECTED ''Adding this referral would create a cycle'')
      else if (case maxNetworkSize cfg of
                 None \<Rightarrow> False
               | Some limit \<Rightarrow>
                   limit \<noteq> 0 \<and> int (totalUsers (storage_getNetworkStats s)) \<ge> limit)
        then Inl (ReferralError NETWORK_SIZE_LIMIT ''Network size limit reached'')
      else if (case maxReferralsPerUser cfg of
                 None \<Rightarrow> False
               | Some limit \<Rightarrow>
                   limit \<noteq> 0 \<and> int (length (getDirectReferrals s ref)) \<ge> limit)
        then Inl (ReferralError REFERRAL_LIMIT ''User has reached maximum referral limit'')
      else Inr ())"

text \<open>
  \<open>addReferral\<close> returns its result and the network it leaves. No operation of the
  in-memory storage throws, so the \<open>catch\<close> branch (\<open>STORAGE_ERROR\<close>) is never taken.
\<close>

definition addReferral ::
  "ReferralNetwork \<Rightarrow> UserId \<Rightarrow> UserId \<Rightarrow> Date \<Rightarrow> unit Result \<times> ReferralNetwork" where
  "addReferral n ref cand now =
     (let n1 = ensureInitialized n in
      case validateReferralInput ref cand of
        Inl e \<Rightarrow> (Inl e, n1)
      | Inr _ \<Rightarrow>
          (case validateReferralConstraints (config n1) (storage n1) ref cand of
             Inl e \<Rightarrow> (Inl e, n1)
           | Inr _ \<Rightarrow>
               (Inr (), n1\<lparr>storage := storage_addReferral (storage n1) ref cand now\<rparr>)))"

text \<open>
  The read accessors give their result; the network they leave is \<open>ensureInitialized n\<close>.
  The method \<open>directReferrals\<close> of the network is \<open>directReferrals'\<close> here, the plain name
  being the field of \<open>UserNode\<close>.
\<close>

definition directReferrals' :: "ReferralNetwork \<Rightarrow> UserId \<Rightarrow> UserId list Result" where
  "directReferrals' n user =
     (let n1 = ensureInitialized n in
      if \<not> isValidUserId user then Inl (ReferralError INVALID_INPUT ''Invalid user ID'')
      else Inr (getDirectReferrals (storage n1) user))"

definition allReferrals :: "ReferralNetwork \<Rightarrow> UserId \<Rightarrow> UserId list Result" where
  "allReferrals n user =
     (let n1 = ensureInitialized n in
      if \<not> isValidUserId user then Inl (ReferralError INVALID_INPUT ''Invalid user ID'')
      else Inr (getAllReferrals (storage n1) user))"

definition getAllUsers :: "ReferralNetwork \<Rightarrow> UserNode list Result" where
  "getAllUsers n = (let n1 = ensureInitialized n in Inr (storage_getAllUsers (storage n1)))"

definition getNetworkStats :: "ReferralNetwork \<Rightarrow> NetworkStats Result" where
  "getNetworkStats n = (let n1 = ensureInitialized n in Inr (storage_getNetworkStats (storage n1)))"

text \<open>A sequence of \<open>addReferral\<close> calls, each with its arguments and the time of the call.\<close>

fun addReferrals :: "ReferralNetwork \<Rightarrow> (UserId \<times> UserId \<times> Date) list \<Rightarrow> ReferralNetwork" where
  "addReferrals n [] = n"
| "addReferrals n ((ref, cand, now) # calls) = addReferrals (snd (addReferral n ref cand now)) calls"

section \<open>Influence analysis (influence.ts)\<close>

text \<open>
  What the analysis functions throw: a plain \<open>Error\<close> with its message, or the
  \<open>ReferralError\<close> of a failed accessor. \<open>Inl\<close> is a throw, \<open>Inr\<close> a return.
\<close>

datatype Thrown = Error string | Rethrown ReferralError

definition calculateReach :: "ReferralNetwork \<Rightarrow> UserId \<Rightarrow> Thrown + nat" where
  "calculateReach n user =
     (case allReferrals n user of
        Inl e \<Rightarrow> Inl (Rethrown e)
      | Inr data \<Rightarrow> Inr (length data))"






subsection \<open>\<open>findShortestPath\<close> and \<open>calculateFlowCentrality\<close>\<close>

text \<open>
  \<open>findShortestPath_for\<close> is the loop over the children of the dequeued user: \<open>Inl\<close> is
  the early return of the path found, \<open>Inr\<close> the queue and the visited set for the next
  iteration of the \<open>while\<close> loop. A user whose \<open>directReferrals\<close> fails is skipped.
\<close>

fun findShortestPath_for ::
  "UserId \<Rightarrow> UserId list \<Rightarrow> UserId list \<Rightarrow> (UserId \<times> UserId list) list \<times> UserId list
     \<Rightarrow> UserId list + (UserId \<times> UserId list) list \<times> UserId list"
where
  "findShortestPath_for target path [] st = Inr st"
| "findShortestPath_for target path (child # rest) (queue, visited) =
     (if child = target then Inl (path @ [child])
      else if child \<notin> set visited
        then findShortestPath_for target path rest
               (queue @ [(child, path @ [child])], visited @ [child])
        else findShortestPath_for target path rest (queue, visited))"

lemma getDirectReferrals_subset: "set (getDirectReferrals s uid) \<subseteq> allChildren s"
proof (cases "map_of (users s) uid")
  case None
  then show ?thesis by (simp add: getDirectReferrals_def)
next
  case (Some node)
  then have "(uid, node) \<in> set (users s)" by (rule map_of_SomeD)
  then have "set (directReferrals node) \<subseteq> allChildren s"
    by (force simp: allChildren_def)
  then show ?thesis using Some by (simp add: getDirectReferrals_def)
qed

lemma findShortestPath_for_measure:
  "findShortestPath_for target path cs (queue, visited) = Inr (queue', visited') \<Longrightarrow>
   set cs \<subseteq> U \<Longrightarrow> finite U \<Longrightarrow>
   length queue' + card (U - set visited') = length queue + card (U - set visited)"
proof (induction cs arbitrary: queue visited)
  case Nil
  then show ?case by simp
next
  case (Cons c cs)
  show ?case
  proof (cases "c \<in> set visited")
    case True
    then show ?thesis using Cons by (auto split: if_splits)
  next
    case False
    have neq: "c \<noteq> target" using Cons.prems(1) by (auto split: if_splits)
    have step: "findShortestPath_for target path cs (queue @ [(c, path @ [c])], visited @ [c])
        = Inr (queue', visited')"
      using Cons.prems(1) False neq by simp
    have "length queue' + card (U - set visited')
        = length (queue @ [(c, path @ [c])]) + card (U - set (visited @ [c]))"
      using Cons.IH[OF step] Cons.prems by simp
    moreover have "U - set (visited @ [c]) = (U - set visited) - {c}" by auto
    moreover have "c \<in> U - set visited" using False Cons.prems(2) by auto
    moreover have "finite (U - set visited)" using Cons.prems(3) by simp
    ultimately show ?thesis
      using card_Suc_Diff1[of "U - set visited" c] by simp
  qed
qed

function findShortestPath_while ::
  "ReferralNetwork \<Rightarrow> UserId \<Rightarrow> (UserId \<times> UserId list) list \<times> UserId list \<Rightarrow> UserId list option"
where
  "findShortestPath_while n target ([], visited) = None"
| "findShortestPath_while n target ((uid, path) # queue, visited) =
     (case directReferrals' n uid of
        Inl _ \<Rightarrow> findShortestPath_while n target (queue, visited)
      | Inr children \<Rightarrow>
          (case findShortestPath_for target path children (queue, visited) of
             Inl found \<Rightarrow> Some found
           | Inr st \<Rightarrow> findShortestPath_while n target st))"
  by pat_completeness auto

termination findShortestPath_while
proof (relation "measure (\<lambda>(n, target, queue, visited).
    length queue + card (allChildren (storage (ensureInitialized n)) - set visited))")
  show "wf (measure (\<lambda>(n, target, queue, visited).
    length queue + card (allChildren (storage (ensureInitialized n)) - set visited)))"
    by simp
next
  fix n :: ReferralNetwork and target uid :: UserId and path :: "UserId list"
    and queue :: "(UserId \<times> UserId list) list" and visited :: "UserId list"
  show "((n, target, queue, visited), n, target, (uid, path) # queue, visited)
       \<in> measure (\<lambda>(n, target, queue, visited).
    length queue + card (allChildren (storage (ensureInitialized n)) - set visited))"
    by simp
next
  fix n :: ReferralNetwork and target uid :: UserId and path :: "UserId list"
    and queue :: "(UserId \<times> UserId list) list" and visited :: "UserId list"
    and children and st :: "(UserId \<times> UserId list) list \<times> UserId list"
  assume a: "directReferrals' n uid = Inr children"
    "findShortestPath_for target path children (queue, visited) = Inr st"
  obtain queue' visited' where st: "st = (queue', visited')" by (cases st)
  have ch: "children = getDirectReferrals (storage (ensureInitialized n)) uid"
    using a(1) by (simp add: directReferrals'_def split: if_splits)
  have sub: "set children \<subseteq> allChildren (storage (ensureInitialized n))"
    unfolding ch by (rule getDirectReferrals_subset)
  have fin: "finite (allChildren (storage (ensureInitialized n)))"
    by (simp add: allChildren_def)
  have "length queue' + card (allChildren (storage (ensureInitialized n)) - set visited')
      = length queue + card (allChildren (storage (ensureInitialized n)) - set visited)"
    using findShortestPath_for_measure[OF a(2)[unfolded st] sub fin] .
  then show "((n, target, st), n, target, (uid, path) # queue, visited)
       \<in> measure (\<lambda>(n, target, queue, visited).
    length queue + card (allChildren (storage (ensureInitialized n)) - set visited))"
    by (simp add: st)
qed

definition findShortestPath :: "ReferralNetwork \<Rightarrow> UserId \<Rightarrow> UserId \<Rightarrow> UserId list option" where
  "findShortestPath n source target =
     (if source = target then Some [source]
      else findShortestPath_while n target ([(source, [source])], [source]))"

text \<open>\<open>path.slice(1, -1)\<close>: the path without its first and its last node.\<close>

definition middleNodes :: "UserId list \<Rightarrow> UserId list" where
  "middleNodes path = butlast (tl path)"

text \<open>
  The two nested loops of \<open>calculateFlowCentrality\<close> over all users; each pair
  \<open>(s, t)\<close> that is not skipped adds 1 or 0 to the counter.
\<close>

definition flowCentrality_pair :: "ReferralNetwork \<Rightarrow> UserId \<Rightarrow> UserId \<Rightarrow> UserId \<Rightarrow> nat" where
  "flowCentrality_pair n user s t =
     (if t = user \<or> t = s then 0
      else (case findShortestPath n s t of
              None \<Rightarrow> 0
            | Some path \<Rightarrow>
                if length path > 2 \<and> user \<in> set (middleNodes path) then 1 else 0))"

definition calculateFlowCentrality :: "ReferralNetwork \<Rightarrow> UserId \<Rightarrow> Thrown + nat" where
  "calculateFlowCentrality n user =
     (case getAllUsers n of
        Inl e \<Rightarrow> Inl (Rethrown e)
      | Inr data \<Rightarrow>
          (let allUsers = map userId data; n1 = ensureInitialized n in
           Inr (\<Sum>s \<leftarrow> allUsers.
                  if s = user then 0
                  else (\<Sum>t \<leftarrow> allUsers. flowCentrality_pair n1 user s t))))"

text \<open>The result of every call of a sequence of \<open>addReferral\<close> calls.\<close>

fun addReferrals_results ::
  "ReferralNetwork \<Rightarrow> (UserId \<times> UserId \<times> Date) list \<Rightarrow> unit Result list" where
  "addReferrals_results n [] = []"
| "addReferrals_results n ((ref, cand, now) # calls) =
     fst (addReferral n ref cand now)
       # addReferrals_results (snd (addReferral n ref cand now)) calls"

section \<open>Notions the properties are stated with\<close>




text \<open>
  The edges of the store are the child edges that the traversals follow: \<open>(x, y)\<close> is an
  edge when \<open>y\<close> is in the \<open>directReferrals\<close> of the user \<open>x\<close>. The relationships
  are the pairs of referrer and candidate recorded in the referrals map, and \<open>parentOf\<close>
  is the parent pointer of a user as stored.
\<close>

definition edges :: "InMemoryStorage \<Rightarrow> (UserId \<times> UserId) set" where
  "edges s = {(x, y). y \<in> set (getDirectReferrals s x)}"

definition relationships :: "InMemoryStorage \<Rightarrow> (UserId \<times> UserId) set" where
  "relationships s = (\<lambda>r. (referrer r, candidate r)) ` snd ` set (referrals s)"

definition parentOf :: "InMemoryStorage \<Rightarrow> UserId \<Rightarrow> UserId option" where
  "parentOf s uid = (case map_of (users s) uid of None \<Rightarrow> None | Some node \<Rightarrow> parent node)"

text \<open>
  The invariant of a store under the default configuration: every edge has a non-empty
  source and is mirrored by the parent pointer of its target; the edges are acyclic; the
  recorded relationships are edges; no list of children has a duplicate; and the key of
  every edge is a key of the referrals map.
\<close>

definition forestStore :: "InMemoryStorage \<Rightarrow> bool" where
  "forestStore s =
     ((\<forall>x y. (x, y) \<in> edges s \<longrightarrow> x \<noteq> [] \<and> parentOf s y = Some x)
      \<and> acyclic (edges s)
      \<and> relationships s \<subseteq> edges s
      \<and> (\<forall>x. distinct (getDirectReferrals s x))
      \<and> (\<forall>x y. (x, y) \<in> edges s \<longrightarrow> referralKey x y \<in> fst ` set (referrals s)))"

definition forestNetwork :: "ReferralNetwork \<Rightarrow> bool" where
  "forestNetwork n = (config n = defaultConfig \<and> forestStore (storage n))"

text \<open>
  The graph that \<open>findShortestPath\<close> searches: the children of a user are what
  \<open>directReferrals\<close> of the network returns for it, and none when that call fails. A path
  from \<open>s\<close> to \<open>t\<close> is a non-empty list of users from \<open>s\<close> to \<open>t\<close> in which each
  user is a child of the one before; it is a shortest path when no path from \<open>s\<close> to
  \<open>t\<close> has fewer nodes.
\<close>

definition children :: "ReferralNetwork \<Rightarrow> UserId \<Rightarrow> UserId list" where
  "children n x = (case directReferrals' n x of Inl _ \<Rightarrow> [] | Inr cs \<Rightarrow> cs)"

definition isPath :: "ReferralNetwork \<Rightarrow> UserId \<Rightarrow> UserId \<Rightarrow> UserId list \<Rightarrow> bool" where
  "isPath n s t p =
     (p \<noteq> [] \<and> hd p = s \<and> last p = t \<and> successively (\<lambda>x y. y \<in> set (children n x)) p)"

definition isShortestPath :: "ReferralNetwork \<Rightarrow> UserId \<Rightarrow> UserId \<Rightarrow> UserId list \<Rightarrow> bool" where
  "isShortestPath n s t p = (isPath n s t p \<and> (\<forall>q. isPath n s t q \<longrightarrow> length p \<le> length q))"

text \<open>
  The invariant of the \<open>while\<close> loop of \<open>findShortestPath\<close>: every queue entry carries a
  path from the source to its user; the queue is ordered by path length and spans at most
  two lengths; a visited user that is no longer queued has all its children visited; and
  every user that a target-free path no longer than the path of the queue head leads to is
  visited, with a queued path that is not longer.
\<close>

definition bfsInv ::
  "ReferralNetwork \<Rightarrow> UserId \<Rightarrow> UserId \<Rightarrow> (UserId \<times> UserId list) list \<Rightarrow> UserId list \<Rightarrow> bool" where
  "bfsInv n source target queue visited =
     ((\<forall>e \<in> set queue. isPath n source (fst e) (snd e) \<and> fst e \<in> set visited)
      \<and> source \<in> set visited \<and> target \<notin> set visited
      \<and> sorted_wrt (\<lambda>a b. length (snd a) \<le> length (snd b)) queue
      \<and> (\<forall>a \<in> set queue. \<forall>b \<in> set queue. length (snd b) \<le> Suc (length (snd a)))
      \<and> (\<forall>x \<in> set visited. x \<notin> fst ` set queue \<longrightarrow> set (children n x) \<subseteq> set visited)
      \<and> distinct (map fst queue)
      \<and> (\<forall>y r. isPath n source y r \<and> target \<notin> set r
                \<and> queue \<noteq> [] \<and> length r \<le> length (snd (hd queue))
              \<longrightarrow> y \<in> set visited
                  \<and> (\<forall>e \<in> set queue. fst e = y \<longrightarrow> length (snd e) \<le> length r)))"

text \<open>
  The descendants of a user are the users reachable from it by one or more edges; its
  subtree holds the user itself as well.
\<close>

definition subtree :: "InMemoryStorage \<Rightarrow> UserId \<Rightarrow> UserId set" where
  "subtree s u = (edges s)\<^sup>* `` {u}"

definition descendants :: "InMemoryStorage \<Rightarrow> UserId \<Rightarrow> UserId set" where
  "descendants s u = (edges s)\<^sup>+ `` {u}"

text \<open>
  Every entry of the users map is stored under the identifier it carries, and that
  identifier is valid.
\<close>

definition usersValid :: "InMemoryStorage \<Rightarrow> bool" where
  "usersValid s = (\<forall>e \<in> set (users s). userId (snd e) = fst e \<and> isValidUserId (fst e))"


section \<open>Concrete networks\<close>

text \<open>The network of the demonstration script: Alice refers Bob and Charlie, Bob refers David and Eve.\<close>

definition demoCalls :: "(UserId \<times> UserId \<times> Date) list" where
  "demoCalls =
     [(''Alice'', ''Bob'', 1), (''Alice'', ''Charlie'', 2), (''Bob'', ''David'', 3), (''Bob'', ''Eve'', 4)]"

definition demoNetwork :: ReferralNetwork where
  "demoNetwork = addReferrals (newReferralNetwork defaultConfig None) demoCalls"

text \<open>A diamond: with several referrers allowed, \<open>d\<close> is referred by \<open>b\<close> and by \<open>c\<close>.\<close>

definition diamondCalls :: "(UserId \<times> UserId \<times> Date) list" where
  "diamondCalls = [(''a'', ''b'', 1), (''a'', ''c'', 2), (''b'', ''d'', 3), (''c'', ''d'', 4)]"

definition diamondNetwork :: ReferralNetwork where
  "diamondNetwork =
     addReferrals (newReferralNetwork (defaultConfig\<lparr>allowMultipleReferrers := True\<rparr>) None)
       diamondCalls"

text \<open>Two referrals whose keys \<open>referrer:candidate\<close> are the same string.\<close>

definition collidingCalls :: "(UserId \<times> UserId \<times> Date) list" where
  "collidingCalls = [(''a:b'', ''c'', 1), (''a'', ''b:c'', 2)]"

definition collidingNetwork :: ReferralNetwork where
  "collidingNetwork = addReferrals (newReferralNetwork defaultConfig None) collidingCalls"

text \<open>
  A storage that is filled by its own \<open>addReferral\<close> before it is ever initialised, and
  the network that the constructor builds on it.
\<close>

definition prefilledStorage :: InMemoryStorage where
  "prefilledStorage = storage_addReferral newStorage ''Xavier'' ''Yara'' 1"

definition prefilledNetwork :: ReferralNetwork where
  "prefilledNetwork = newReferralNetwork defaultConfig (Some prefilledStorage)"

text \<open>A network that allows self-referrals, and one that is full at two users.\<close>

definition selfNetwork :: ReferralNetwork where
  "selfNetwork = newReferralNetwork (defaultConfig\<lparr>allowSelfReferrals := True\<rparr>) None"

definition fullNetwork :: ReferralNetwork where
  "fullNetwork =
     addReferrals (newReferralNetwork (defaultConfig\<lparr>maxNetworkSize := Some 2\<rparr>) None)
       [(''Alice'', ''Bob'', 1)]"

text \<open>
  With several referrers allowed: \<open>a\<close> refers \<open>c\<close> and then \<open>b\<close>, \<open>b\<close> refers \<open>c\<close>, and
  \<open>c\<close> refers \<open>d\<close>. The longest chain has the three edges from \<open>a\<close> over \<open>b\<close> and \<open>c\<close>
  to \<open>d\<close>.
\<close>

definition chainCalls :: "(UserId \<times> UserId \<times> Date) list" where
  "chainCalls = [(''a'', ''c'', 1), (''a'', ''b'', 2), (''b'', ''c'', 3), (''c'', ''d'', 4)]"

definition chainNetwork :: ReferralNetwork where
  "chainNetwork =
     addReferrals (newReferralNetwork (defaultConfig\<lparr>allowMultipleReferrers := True\<rparr>) None)
       chainCalls"

section \<open>Initialisation and validation\<close>

lemma ensureInitialized_idem: "ensureInitialized (ensureInitialized n) = ensureInitialized n"
  by (simp add: ensureInitialized_def initialize_def)

lemma ensureInitialized_initialized: "isInitialized n \<Longrightarrow> ensureInitialized n = n"
  by (simp add: ensureInitialized_def)

lemma ensureInitialized_storage:
  "InMemoryStorage.isInitialized (storage n) \<Longrightarrow> storage (ensureInitialized n) = storage n"
  by (simp add: ensureInitialized_def initialize_def storage_initialize_def)

lemma ensureInitialized_config: "config (ensureInitialized n) = config n"
  by (simp add: ensureInitialized_def initialize_def)

lemma validateReferralInput_valid:
  "isValidUserId ref \<Longrightarrow> isValidUserId cand \<Longrightarrow> validateReferralInput ref cand = Inr ()"
  by (simp add: validateReferralInput_def)

lemma addReferral_rejected:
  "validateReferralInput ref cand = Inr () \<Longrightarrow>
   validateReferralConstraints (config n) (storage (ensureInitialized n)) ref cand = Inl e \<Longrightarrow>
   addReferral n ref cand now = (Inl e, ensureInitialized n)"
  by (simp add: addReferral_def ensureInitialized_config)

lemma addReferral_failure:
  "addReferral n ref cand now = (Inl e, n') \<Longrightarrow> n' = ensureInitialized n"
  by (simp add: addReferral_def Let_def split: sum.splits)

lemma canReach_self: "canReach s a a"
  by (simp add: canReach_def)

lemma demo_cycle_rejected:
  "addReferral demoNetwork ''David'' ''Alice'' 5 =
     (Inl (ReferralError CYCLE_DETECTED ''Adding this referral would create a cycle''), demoNetwork)"
  by code_simp

section \<open>The association list as a map\<close>

lemma map_of_map_set: "map_of (map_set m k v) = (map_of m)(k \<mapsto> v)"
  by (induction m) (auto simp: fun_eq_iff)


lemma set_map_set: "set (map_set m k v) \<subseteq> insert (k, v) (set m)"
  by (induction m) (auto split: if_splits)

lemma keys_map_set: "fst ` set (map_set m k v) = insert k (fst ` set m)"
proof -
  have "dom (map_of (map_set m k v)) = insert k (dom (map_of m))"
    by (simp add: map_of_map_set)
  then show ?thesis by (simp add: dom_map_of_conv_image_fst)
qed


section \<open>\<open>canReach\<close> decides reachability\<close>

lemma canReach_for_Inl:
  "canReach_for target cs st = Inl b \<Longrightarrow> b \<and> target \<in> set cs"
  by (induction target cs st rule: canReach_for.induct) (auto split: if_splits)

lemma canReach_for_Inr:
  "canReach_for target cs (q, v) = Inr (q', v') \<Longrightarrow>
   target \<notin> set cs \<and> set v' = set v \<union> set cs \<and> set q' = set q \<union> (set cs - set v)"
proof (induction cs arbitrary: q v)
  case Nil
  then show ?case by simp
next
  case (Cons c cs)
  show ?case
  proof (cases "c \<in> set v")
    case True
    then have "canReach_for target cs (q, v) = Inr (q', v')" and "c \<noteq> target"
      using Cons.prems by (auto split: if_splits)
    then show ?thesis using Cons.IH[of q v] True by auto
  next
    case False
    then have "canReach_for target cs (q @ [c], v @ [c]) = Inr (q', v')" and "c \<noteq> target"
      using Cons.prems by (auto split: if_splits)
    then show ?thesis using Cons.IH[of "q @ [c]" "v @ [c]"] False by auto
  qed
qed

lemma edges_None: "map_of (users s) x = None \<Longrightarrow> (x, y) \<notin> edges s"
  by (simp add: edges_def getDirectReferrals_def)

lemma edges_Some: "map_of (users s) x = Some node \<Longrightarrow> ((x, y) \<in> edges s) = (y \<in> set (directReferrals node))"
  by (simp add: edges_def getDirectReferrals_def)

lemma canReach_while_complete:
  "\<not> canReach_while s target (q, v) \<Longrightarrow>
   set q \<subseteq> set v \<Longrightarrow> target \<notin> set v \<Longrightarrow>
   (\<forall>x \<in> set v - set q. \<forall>y. (x, y) \<in> edges s \<longrightarrow> y \<in> set v) \<Longrightarrow>
   x \<in> set v \<Longrightarrow> (x, target) \<notin> (edges s)\<^sup>*"
proof (induction s target "(q, v)" arbitrary: q v rule: canReach_while.induct)
  case (1 s target visited)
  have closed: "b \<in> set visited" if "a \<in> set visited" "(a, b) \<in> edges s" for a b
    using 1(4) that by simp
  have "z \<in> set visited" if "(x, z) \<in> (edges s)\<^sup>*" for z
    using that
  proof (induction rule: rtrancl_induct)
    case base
    then show ?case using 1(5) .
  next
    case (step y z)
    then show ?case using closed by blast
  qed
  then show ?case using 1(3) by blast
next
  case (2 s target current queue visited)
  show ?case
  proof (cases "map_of (users s) current")
    case None
    have nr: "\<not> canReach_while s target (queue, visited)" using 2(3) None by simp
    have sub: "set queue \<subseteq> set visited" using 2(4) by simp
    have inv: "\<forall>a \<in> set visited - set queue. \<forall>y. (a, y) \<in> edges s \<longrightarrow> y \<in> set visited"
    proof (intro ballI allI impI)
      fix a y assume a: "a \<in> set visited - set queue" and e: "(a, y) \<in> edges s"
      have "a \<noteq> current" using e edges_None[OF None] by blast
      then have "a \<in> set visited - set (current # queue)" using a by simp
      then show "y \<in> set visited" using 2(6) e by blast
    qed
    show ?thesis using 2(1)[OF None nr sub 2(5) inv 2(7)] .
  next
    case (Some user)
    show ?thesis
    proof (cases "canReach_for target (directReferrals user) (queue, visited)")
      case (Inl b)
      then show ?thesis using 2(3) Some canReach_for_Inl[OF Inl] by simp
    next
      case (Inr st)
      obtain q' v' where st: "st = (q', v')" by (cases st)
      note r = canReach_for_Inr[OF Inr[unfolded st]]
      have nr: "\<not> canReach_while s target (q', v')" using 2(3) Some Inr st by simp
      have rv: "set v' = set visited \<union> set (directReferrals user)"
        and rq: "set q' = set queue \<union> (set (directReferrals user) - set visited)"
        and rt: "target \<notin> set (directReferrals user)"
        using r by simp_all
      have subq: "set queue \<subseteq> set visited" using 2(4) by simp
      have a: "set q' \<subseteq> set v'" unfolding rv rq using subq by blast
      have b: "target \<notin> set v'" unfolding rv using rt 2(5) by blast
      have c: "\<forall>a \<in> set v' - set q'. \<forall>y. (a, y) \<in> edges s \<longrightarrow> y \<in> set v'"
      proof (intro ballI allI impI)
        fix a y assume a: "a \<in> set v' - set q'" and e: "(a, y) \<in> edges s"
        have av: "a \<in> set visited" and aq: "a \<notin> set queue"
          using a unfolding rv rq by blast+
        show "y \<in> set v'"
        proof (cases "a = current")
          case True
          then have "y \<in> set (directReferrals user)" using e edges_Some[OF Some] by simp
          then show ?thesis unfolding rv by blast
        next
          case False
          then have "a \<in> set visited - set (current # queue)" using av aq by simp
          then have "y \<in> set visited" using 2(6) e by blast
          then show ?thesis unfolding rv by blast
        qed
      qed
      have d: "x \<in> set v'" unfolding rv using 2(7) by blast
      show ?thesis using 2(2)[OF Some Inr[unfolded st] nr a b c d] .
    qed
  qed
qed

lemma canReach_while_sound:
  "canReach_while s target (q, v) \<Longrightarrow> \<exists>x \<in> set q. (x, target) \<in> (edges s)\<^sup>+"
proof (induction s target "(q, v)" arbitrary: q v rule: canReach_while.induct)
  case (1 s target visited)
  then show ?case by simp
next
  case (2 s target current queue visited)
  show ?case
  proof (cases "map_of (users s) current")
    case None
    then show ?thesis using 2(1)[OF None] 2(3) by auto
  next
    case (Some user)
    show ?thesis
    proof (cases "canReach_for target (directReferrals user) (queue, visited)")
      case (Inl b)
      then have "(current, target) \<in> edges s"
        using canReach_for_Inl[OF Inl] edges_Some[OF Some] by simp
      then show ?thesis by auto
    next
      case (Inr st)
      obtain q' v' where st: "st = (q', v')" by (cases st)
      note r = canReach_for_Inr[OF Inr[unfolded st]]
      have "canReach_while s target (q', v')" using 2(3) Some Inr st by simp
      then obtain x where x: "x \<in> set q'" "(x, target) \<in> (edges s)\<^sup>+"
        using 2(2)[OF Some Inr[unfolded st]] by blast
      show ?thesis
      proof (cases "x \<in> set queue")
        case True
        then show ?thesis using x by auto
      next
        case False
        then have "(current, x) \<in> edges s" using x(1) r edges_Some[OF Some] by auto
        then have "(current, target) \<in> (edges s)\<^sup>+" using x(2) by simp
        then show ?thesis by auto
      qed
    qed
  qed
qed

lemma canReach_iff: "canReach s start target = ((start, target) \<in> (edges s)\<^sup>*)"
proof (cases "start = target")
  case True
  then show ?thesis by (simp add: canReach_def)
next
  case False
  show ?thesis
  proof
    assume "canReach s start target"
    then have "canReach_while s target ([start], [start])" using False by (simp add: canReach_def)
    from canReach_while_sound[OF this] show "(start, target) \<in> (edges s)\<^sup>*" by auto
  next
    assume r: "(start, target) \<in> (edges s)\<^sup>*"
    show "canReach s start target"
    proof (rule ccontr)
      assume "\<not> canReach s start target"
      then have "\<not> canReach_while s target ([start], [start])" using False by (simp add: canReach_def)
      from canReach_while_complete[OF this, of start] False r show False by auto
    qed
  qed
qed

section \<open>What \<open>addReferral\<close> of the storage writes\<close>

lemma exists_addUser: "map_of (users (addUser s u t)) u \<noteq> None"
  by (simp add: addUser_def map_has_def map_of_map_set)

lemma exists_addUser_mono: "map_of (users s) x \<noteq> None \<Longrightarrow> map_of (users (addUser s u t)) x \<noteq> None"
  by (simp add: addUser_def map_has_def map_of_map_set)

lemma exists_modifyUser: "(map_of (users (modifyUser s u f)) x \<noteq> None) = (map_of (users s) x \<noteq> None)"
  by (simp add: modifyUser_def map_of_map_set split: option.splits)

lemma getDirectReferrals_addUser: "getDirectReferrals (addUser s u t) x = getDirectReferrals s x"
  by (simp add: addUser_def map_has_def map_of_map_set getDirectReferrals_def)

lemma parentOf_addUser: "parentOf (addUser s u t) y = parentOf s y"
  by (simp add: addUser_def map_has_def map_of_map_set parentOf_def)

lemma referrals_addUser: "referrals (addUser s u t) = referrals s"
  by (simp add: addUser_def)

lemma referrals_modifyUser: "referrals (modifyUser s u f) = referrals s"
  by (simp add: modifyUser_def split: option.splits)

lemma getDirectReferrals_modifyUser:
  "getDirectReferrals (modifyUser s u f) x =
     (if x = u then (case map_of (users s) u of None \<Rightarrow> [] | Some node \<Rightarrow> directReferrals (f node))
      else getDirectReferrals s x)"
  by (simp add: modifyUser_def map_of_map_set getDirectReferrals_def split: option.splits)

lemma parentOf_modifyUser:
  "parentOf (modifyUser s u f) y =
     (if y = u then (case map_of (users s) u of None \<Rightarrow> None | Some node \<Rightarrow> parent (f node))
      else parentOf s y)"
  by (simp add: modifyUser_def map_of_map_set parentOf_def split: option.splits)

lemma getDirectReferrals_push:
  assumes "map_of (users s) r \<noteq> None"
  shows "getDirectReferrals
           (modifyUser s r (\<lambda>node. if c \<in> set (directReferrals node) then node
                                   else node\<lparr>directReferrals := directReferrals node @ [c]\<rparr>)) x =
         (if x = r
          then (if c \<in> set (getDirectReferrals s r) then getDirectReferrals s r
                else getDirectReferrals s r @ [c])
          else getDirectReferrals s x)"
  using assms
  by (subst getDirectReferrals_modifyUser) (auto simp: getDirectReferrals_def split: option.splits)

lemma getDirectReferrals_setParent:
  "getDirectReferrals (modifyUser s c (\<lambda>node. node\<lparr>parent := Some r\<rparr>)) x = getDirectReferrals s x"
  by (subst getDirectReferrals_modifyUser) (auto simp: getDirectReferrals_def split: option.splits)

lemma parentOf_push:
  "parentOf (modifyUser s r (\<lambda>node. if c \<in> set (directReferrals node) then node
                                   else node\<lparr>directReferrals := directReferrals node @ [c]\<rparr>)) y
   = parentOf s y"
  by (subst parentOf_modifyUser) (auto simp: parentOf_def split: option.splits)

lemma parentOf_setParent:
  assumes "map_of (users s) c \<noteq> None"
  shows "parentOf (modifyUser s c (\<lambda>node. node\<lparr>parent := Some r\<rparr>)) y
       = (if y = c then Some r else parentOf s y)"
  using assms by (auto simp: parentOf_modifyUser)

lemma getDirectReferrals_storage_addReferral:
  "getDirectReferrals (storage_addReferral s r c t) x =
     (if x = r
      then (if c \<in> set (getDirectReferrals s r) then getDirectReferrals s r
            else getDirectReferrals s r @ [c])
      else getDirectReferrals s x)"
proof -
  define s1 where "s1 = s\<lparr>referrals := map_set (referrals s) (referralKey r c)
                     \<lparr>referrer = r, candidate = c, createdAt = t\<rparr>\<rparr>"
  define s3 where "s3 = addUser (addUser s1 r t) c t"
  have g1: "getDirectReferrals s1 y = getDirectReferrals s y" for y
    by (simp add: s1_def getDirectReferrals_def)
  have g3: "getDirectReferrals s3 y = getDirectReferrals s y" for y
    by (simp add: s3_def getDirectReferrals_addUser g1)
  have e3: "map_of (users s3) r \<noteq> None"
    unfolding s3_def by (intro exists_addUser_mono exists_addUser)
  show ?thesis
    unfolding storage_addReferral_def Let_def s1_def[symmetric] s3_def[symmetric]
    by (simp only: getDirectReferrals_setParent getDirectReferrals_push[OF e3] g3)
qed

lemma parentOf_storage_addReferral:
  "parentOf (storage_addReferral s r c t) y = (if y = c then Some r else parentOf s y)"
proof -
  define s1 where "s1 = s\<lparr>referrals := map_set (referrals s) (referralKey r c)
                     \<lparr>referrer = r, candidate = c, createdAt = t\<rparr>\<rparr>"
  define s3 where "s3 = addUser (addUser s1 r t) c t"
  define push :: "UserNode \<Rightarrow> UserNode" where "push = (\<lambda>node. if c \<in> set (directReferrals node) then node
                                   else node\<lparr>directReferrals := directReferrals node @ [c]\<rparr>)"
  have p1: "parentOf s1 z = parentOf s z" for z
    by (simp add: s1_def parentOf_def)
  have p3: "parentOf s3 z = parentOf s z" for z
    by (simp add: s3_def parentOf_addUser p1)
  have "map_of (users s3) c \<noteq> None"
    unfolding s3_def by (rule exists_addUser)
  then have e4: "map_of (users (modifyUser s3 r push)) c \<noteq> None"
    using exists_modifyUser[of s3 r push c] by blast
  have "parentOf (modifyUser (modifyUser s3 r push) c (\<lambda>node. node\<lparr>parent := Some r\<rparr>)) y
      = (if y = c then Some r else parentOf s y)"
    unfolding parentOf_setParent[OF e4] by (simp add: push_def parentOf_push p3)
  then show ?thesis
    unfolding storage_addReferral_def Let_def s1_def[symmetric] s3_def[symmetric] push_def[symmetric] .
qed

lemma referrals_storage_addReferral:
  "referrals (storage_addReferral s r c t) =
     map_set (referrals s) (referralKey r c) \<lparr>referrer = r, candidate = c, createdAt = t\<rparr>"
  by (simp add: storage_addReferral_def Let_def referrals_modifyUser referrals_addUser)

lemma edges_storage_addReferral:
  "edges (storage_addReferral s r c t) = insert (r, c) (edges s)"
  by (auto simp: edges_def getDirectReferrals_storage_addReferral split: if_splits)

lemma storage_getParent_parentOf:
  "storage_getParent s y =
     (case parentOf s y of None \<Rightarrow> None | Some p \<Rightarrow> if p = [] then None else Some p)"
  by (simp add: storage_getParent_def parentOf_def split: option.splits)

lemma isValidUserId_nonempty: "isValidUserId u \<Longrightarrow> u \<noteq> []"
  by (auto simp: isValidUserId_def trim_def)

section \<open>The forest invariant\<close>

lemma validate_default:
  "(validateReferralConstraints defaultConfig s r c = Inr ()) =
     (r \<noteq> c \<and> (storage_getParent s c = None \<or> storage_getParent s c = Some r)
      \<and> \<not> canReach s c r)"
  by (auto simp: validateReferralConstraints_def defaultConfig_def wouldCreateCycle_def
      split: option.splits)

lemma relationships_map_set:
  "(\<lambda>r. (referrer r, candidate r)) ` snd ` set (map_set m k \<lparr>referrer = r, candidate = c, createdAt = t\<rparr>)
   \<subseteq> insert (r, c) ((\<lambda>r. (referrer r, candidate r)) ` snd ` set m)"
  using set_map_set[of m k "\<lparr>referrer = r, candidate = c, createdAt = t\<rparr>"] by force

lemma forestStore_addReferral:
  assumes f: "forestStore s" and v: "isValidUserId r"
    and ok: "validateReferralConstraints defaultConfig s r c = Inr ()"
  shows "forestStore (storage_addReferral s r c t)"
proof -
  let ?s' = "storage_addReferral s r c t"
  have e': "edges ?s' = insert (r, c) (edges s)" by (rule edges_storage_addReferral)
  have neq: "r \<noteq> c" and par: "storage_getParent s c = None \<or> storage_getParent s c = Some r"
    and nreach: "\<not> canReach s c r"
    using ok by (simp_all add: validate_default)
  have f1: "\<And>x y. (x, y) \<in> edges s \<Longrightarrow> x \<noteq> [] \<and> parentOf s y = Some x"
    and f2: "acyclic (edges s)" and f3: "relationships s \<subseteq> edges s"
    and f4: "\<And>x. distinct (getDirectReferrals s x)"
    and f5: "\<And>x y. (x, y) \<in> edges s \<Longrightarrow> referralKey x y \<in> fst ` set (referrals s)"
    using f unfolding forestStore_def by blast+
  have into_c: "x = r" if "(x, c) \<in> edges s" for x
  proof -
    have "x \<noteq> []" "parentOf s c = Some x" using f1[OF that] by simp_all
    then have "storage_getParent s c = Some x" by (simp add: storage_getParent_parentOf)
    then show ?thesis using par by simp
  qed
  have g1: "x \<noteq> [] \<and> parentOf ?s' y = Some x" if "(x, y) \<in> edges ?s'" for x y
  proof (cases "y = c")
    case True
    have "x = r" using that into_c unfolding e' True by blast
    then show ?thesis using True isValidUserId_nonempty[OF v]
      by (simp add: parentOf_storage_addReferral)
  next
    case False
    then have "(x, y) \<in> edges s" using that unfolding e' by simp
    then show ?thesis using f1 False by (simp add: parentOf_storage_addReferral)
  qed
  have "(c, r) \<notin> (edges s)\<^sup>*" using nreach by (simp add: canReach_iff)
  then have g2: "acyclic (edges ?s')" unfolding e' using f2 by (simp add: acyclic_insert)
  have g3: "relationships ?s' \<subseteq> edges ?s'"
    unfolding e' relationships_def referrals_storage_addReferral
    using relationships_map_set[where r=r and c=c and t=t and m="referrals s"
        and k="referralKey r c"] f3
    unfolding relationships_def by blast
  have g4: "distinct (getDirectReferrals ?s' x)" for x
    using f4 by (simp add: getDirectReferrals_storage_addReferral)
  have g5: "referralKey x y \<in> fst ` set (referrals ?s')" if "(x, y) \<in> edges ?s'" for x y
    using that f5 unfolding e' referrals_storage_addReferral keys_map_set by blast
  show ?thesis unfolding forestStore_def using g1 g2 g3 g4 g5 by blast
qed

lemma forestStore_empty: "users s = [] \<Longrightarrow> referrals s = [] \<Longrightarrow> forestStore s"
  by (simp add: forestStore_def edges_def relationships_def getDirectReferrals_def acyclic_def)

lemma forestNetwork_ensureInitialized: "forestNetwork n \<Longrightarrow> forestNetwork (ensureInitialized n)"
  by (auto simp: forestNetwork_def ensureInitialized_def initialize_def storage_initialize_def
      intro: forestStore_empty)

lemma addReferral_cases:
  "(\<exists>e. addReferral n r c t = (Inl e, ensureInitialized n))
   \<or> (isValidUserId r \<and> isValidUserId c
      \<and> validateReferralConstraints (config n) (storage (ensureInitialized n)) r c = Inr ()
      \<and> addReferral n r c t =
          (Inr (), (ensureInitialized n)\<lparr>storage :=
                     storage_addReferral (storage (ensureInitialized n)) r c t\<rparr>))"
  by (auto simp: addReferral_def Let_def validateReferralInput_def ensureInitialized_config
      split: sum.splits if_splits)

lemma forestNetwork_addReferral:
  assumes "forestNetwork n"
  shows "forestNetwork (snd (addReferral n r c t))"
proof -
  have i: "forestNetwork (ensureInitialized n)" by (rule forestNetwork_ensureInitialized[OF assms])
  have cfg: "config n = defaultConfig" using assms by (simp add: forestNetwork_def)
  from addReferral_cases[of n r c t] show ?thesis
  proof (elim disjE exE conjE)
    fix e assume "addReferral n r c t = (Inl e, ensureInitialized n)"
    then show ?thesis using i by simp
  next
    assume v: "isValidUserId r"
      and ok: "validateReferralConstraints (config n) (storage (ensureInitialized n)) r c = Inr ()"
      and r: "addReferral n r c t =
          (Inr (), (ensureInitialized n)\<lparr>storage :=
                     storage_addReferral (storage (ensureInitialized n)) r c t\<rparr>)"
    have "forestStore (storage_addReferral (storage (ensureInitialized n)) r c t)"
      using forestStore_addReferral[OF _ v ok[unfolded cfg]] i by (simp add: forestNetwork_def)
    then show ?thesis using i by (simp add: r forestNetwork_def)
  qed
qed

lemma forestNetwork_addReferrals: "forestNetwork n \<Longrightarrow> forestNetwork (addReferrals n calls)"
  by (induction n calls rule: addReferrals.induct) (simp_all add: forestNetwork_addReferral)

lemma forestNetwork_new: "forestNetwork (newReferralNetwork defaultConfig None)"
  by (simp add: forestNetwork_def newReferralNetwork_def newStorage_def forestStore_empty)

lemma forestStore_single_valued: "forestStore s \<Longrightarrow> single_valued ((edges s)\<inverse>)"
  unfolding forestStore_def single_valued_def by (metis converseD option.inject)

text \<open>
  Claim C1. With the default configuration, after every sequence of \<open>addReferral\<close> calls
  on a new network the edges of the store form a forest: they are acyclic and no user is
  the target of two edges. The relationships recorded in the referrals map are among
  these edges, so they form a forest as well.
\<close>

theorem forest_invariant:
  "acyclic (edges (storage (addReferrals (newReferralNetwork defaultConfig None) calls)))
   \<and> single_valued ((edges (storage (addReferrals (newReferralNetwork defaultConfig None) calls)))\<inverse>)
   \<and> relationships (storage (addReferrals (newReferralNetwork defaultConfig None) calls))
       \<subseteq> edges (storage (addReferrals (newReferralNetwork defaultConfig None) calls))
   \<and> acyclic (relationships (storage (addReferrals (newReferralNetwork defaultConfig None) calls)))
   \<and> single_valued
       ((relationships (storage (addReferrals (newReferralNetwork defaultConfig None) calls)))\<inverse>)"
proof -
  let ?s = "storage (addReferrals (newReferralNetwork defaultConfig None) calls)"
  have f: "forestStore ?s"
    using forestNetwork_addReferrals[OF forestNetwork_new] by (simp add: forestNetwork_def)
  then have a: "acyclic (edges ?s)" and r: "relationships ?s \<subseteq> edges ?s"
    by (simp_all add: forestStore_def)
  have sv: "single_valued ((edges ?s)\<inverse>)" by (rule forestStore_single_valued[OF f])
  have "acyclic (relationships ?s)" using a r by (rule acyclic_subset)
  moreover have "single_valued ((relationships ?s)\<inverse>)"
  proof (rule single_valued_subset[OF _ sv])
    show "(relationships ?s)\<inverse> \<subseteq> (edges ?s)\<inverse>" using r by blast
  qed
  ultimately show ?thesis using a sv r by simp
qed

section \<open>Rejection is atomic\<close>

lemma ensureInitialized_maps:
  assumes "isInitialized n \<or> InMemoryStorage.isInitialized (storage n)
      \<or> (users (storage n) = [] \<and> referrals (storage n) = [])"
  shows "users (storage (ensureInitialized n)) = users (storage n)
       \<and> referrals (storage (ensureInitialized n)) = referrals (storage n)"
  using assms by (auto simp: ensureInitialized_def initialize_def storage_initialize_def)

lemma addReferral_leaves_initialized: "isInitialized (snd (addReferral n ref cand now))"
  by (auto simp: addReferral_def Let_def ensureInitialized_def initialize_def split: sum.splits)

lemma addReferrals_initialized:
  "isInitialized n \<Longrightarrow> isInitialized (addReferrals n calls)"
  by (induction n calls rule: addReferrals.induct) (simp_all add: addReferral_leaves_initialized)

lemma built_network_initialized_or_empty:
  "isInitialized (addReferrals (newReferralNetwork cfg None) calls)
   \<or> (users (storage (addReferrals (newReferralNetwork cfg None) calls)) = []
      \<and> referrals (storage (addReferrals (newReferralNetwork cfg None) calls)) = [])"
proof (cases calls)
  case Nil
  then show ?thesis by (simp add: newReferralNetwork_def newStorage_def)
next
  case (Cons call rest)
  obtain r c t where "call = (r, c, t)" by (cases call)
  then show ?thesis
    using Cons addReferrals_initialized[OF addReferral_leaves_initialized] by simp
qed

text \<open>
  Claim C2. A call of \<open>addReferral\<close> that returns a failure does nothing but the lazy
  initialisation that every call of the network starts with: the network it leaves is
  \<open>ensureInitialized n\<close>, in every state and under every configuration. So an
  initialised network is left exactly as it was; the users map (with every list of direct
  referrals and every parent pointer) and the referrals map are unchanged whenever the
  network or its storage is initialised or the storage is empty, which holds in every
  state built through the network; and \<open>getAllUsers()\<close> and \<open>getNetworkStats()\<close>
  return after the call what they return before it.
\<close>

theorem addReferral_rejection_atomic:
  assumes "addReferral n ref cand now = (Inl e, n')"
  shows "n' = ensureInitialized n
       \<and> (isInitialized n \<longrightarrow> n' = n)
       \<and> (isInitialized n \<or> InMemoryStorage.isInitialized (storage n)
            \<or> (users (storage n) = [] \<and> referrals (storage n) = [])
          \<longrightarrow> users (storage n') = users (storage n)
              \<and> referrals (storage n') = referrals (storage n))
       \<and> getAllUsers n' = getAllUsers n
       \<and> getNetworkStats n' = getNetworkStats n"
proof -
  have n': "n' = ensureInitialized n" by (rule addReferral_failure[OF assms])
  have "getAllUsers n' = getAllUsers n" "getNetworkStats n' = getNetworkStats n"
    unfolding n' by (simp_all add: getAllUsers_def getNetworkStats_def ensureInitialized_idem)
  then show ?thesis
    using n' ensureInitialized_initialized[of n] ensureInitialized_maps[of n] by blast
qed

theorem addReferral_rejection_atomic_witness:
  "isInitialized demoNetwork
   \<and> snd (addReferral demoNetwork ''David'' ''Alice'' 5) = demoNetwork
   \<and> getAllUsers (snd (addReferral demoNetwork ''David'' ''Alice'' 5)) = getAllUsers demoNetwork
   \<and> getNetworkStats (snd (addReferral demoNetwork ''David'' ''Alice'' 5))
       = getNetworkStats demoNetwork"
proof -
  have init: "isInitialized demoNetwork" by code_simp
  show ?thesis
    using addReferral_rejection_atomic[OF demo_cycle_rejected] init
    by (simp add: demo_cycle_rejected)
qed

text \<open>
  The state that the condition on the maps excludes: the storage of \<open>prefilledNetwork\<close>
  holds two users and one referral and has never been initialised. The first call of the
  network, here an \<open>addReferral\<close> that fails on its empty referrer, initialises the
  storage, and \<open>initialize\<close> empties both maps.
\<close>

theorem addReferral_rejection_prefilled_storage:
  "fst (addReferral prefilledNetwork '''' ''Zoe'' 2)
     = Inl (ReferralError INVALID_INPUT ''Invalid referrer ID'')
   \<and> map fst (users (storage prefilledNetwork)) = [''Xavier'', ''Yara'']
   \<and> map fst (referrals (storage prefilledNetwork)) = [''Xavier:Yara'']
   \<and> users (storage (snd (addReferral prefilledNetwork '''' ''Zoe'' 2))) = []
   \<and> referrals (storage (snd (addReferral prefilledNetwork '''' ''Zoe'' 2))) = []"
proof -
  have "fst (addReferral prefilledNetwork '''' ''Zoe'' 2)
      = Inl (ReferralError INVALID_INPUT ''Invalid referrer ID'')"
    by code_simp
  moreover have "map fst (users (storage prefilledNetwork)) = [''Xavier'', ''Yara'']"
    by code_simp
  moreover have "map fst (referrals (storage prefilledNetwork)) = [''Xavier:Yara'']"
    by code_simp
  moreover have "users (storage (snd (addReferral prefilledNetwork '''' ''Zoe'' 2))) = []"
    by code_simp
  moreover have "referrals (storage (snd (addReferral prefilledNetwork '''' ''Zoe'' 2))) = []"
    by code_simp
  ultimately show ?thesis by simp
qed

section \<open>The demonstration scenario\<close>

text \<open>
  Claim C3. From the empty network with the default configuration the four referrals
  Alice to Bob, Alice to Charlie, Bob to David and Bob to Eve all succeed; then
  \<open>allReferrals("Alice")\<close> is Bob, David, Eve, Charlie, that is the four-element set
  of Bob, Charlie, David and Eve, the reach of Alice is 4 and the reach of Bob is 2;
  and \<open>addReferral("David", "Alice")\<close> fails with \<open>CYCLE_DETECTED\<close> and leaves the
  network as it was.
\<close>

theorem demo_scenario:
  "addReferrals_results (newReferralNetwork defaultConfig None) demoCalls
     = [Inr (), Inr (), Inr (), Inr ()]
   \<and> allReferrals demoNetwork ''Alice'' = Inr [''Bob'', ''David'', ''Eve'', ''Charlie'']
   \<and> set [''Bob'', ''David'', ''Eve'', ''Charlie''] = {''Bob'', ''Charlie'', ''David'', ''Eve''}
   \<and> distinct [''Bob'', ''David'', ''Eve'', ''Charlie'']
   \<and> calculateReach demoNetwork ''Alice'' = Inr 4
   \<and> calculateReach demoNetwork ''Bob'' = Inr 2
   \<and> addReferral demoNetwork ''David'' ''Alice'' 5 =
       (Inl (ReferralError CYCLE_DETECTED ''Adding this referral would create a cycle''),
        demoNetwork)"
proof -
  have "addReferrals_results (newReferralNetwork defaultConfig None) demoCalls
      = [Inr (), Inr (), Inr (), Inr ()]"
    by code_simp
  moreover have "allReferrals demoNetwork ''Alice'' = Inr [''Bob'', ''David'', ''Eve'', ''Charlie'']"
    by code_simp
  moreover have "set [''Bob'', ''David'', ''Eve'', ''Charlie'']
      = {''Bob'', ''Charlie'', ''David'', ''Eve''}"
    by auto
  moreover have "distinct [''Bob'', ''David'', ''Eve'', ''Charlie'']" by simp
  moreover have "calculateReach demoNetwork ''Alice'' = Inr 4" by code_simp
  moreover have "calculateReach demoNetwork ''Bob'' = Inr 2" by code_simp
  ultimately show ?thesis using demo_cycle_rejected by simp
qed

section \<open>Adding an edge again\<close>











section \<open>The identifiers that \<open>addReferral\<close> stores are valid\<close>

lemma usersValid_addUser:
  assumes "usersValid s" and "isValidUserId u"
  shows "usersValid (addUser s u t)"
proof (cases "map_has (users s) u")
  case True
  then show ?thesis using assms(1) by (simp add: addUser_def)
next
  case False
  let ?node = "\<lparr>userId = u, directReferrals = [], parent = None, UserNode.createdAt = t\<rparr>"
  have "set (users (addUser s u t)) \<subseteq> insert (u, ?node) (set (users s))"
    using False set_map_set[of "users s" u ?node] by (simp add: addUser_def)
  then show ?thesis using assms unfolding usersValid_def by fastforce
qed

lemma usersValid_modifyUser:
  assumes "usersValid s" and "\<And>node. userId (f node) = userId node"
  shows "usersValid (modifyUser s u f)"
proof (cases "map_of (users s) u")
  case None
  then show ?thesis using assms(1) by (simp add: modifyUser_def)
next
  case (Some node)
  then have m: "(u, node) \<in> set (users s)" by (rule map_of_SomeD)
  have "set (users (modifyUser s u f)) \<subseteq> insert (u, f node) (set (users s))"
    using Some set_map_set[of "users s" u "f node"] by (simp add: modifyUser_def)
  moreover have "userId (f node) = u \<and> isValidUserId u"
    using assms m unfolding usersValid_def by fastforce
  ultimately show ?thesis using assms(1) unfolding usersValid_def by fastforce
qed

lemma usersValid_storage_addReferral:
  assumes "usersValid s" and "isValidUserId r" and "isValidUserId c"
  shows "usersValid (storage_addReferral s r c t)"
proof -
  have "usersValid (s\<lparr>referrals := x\<rparr>)" for x
    using assms(1) by (simp add: usersValid_def)
  then show ?thesis
    unfolding storage_addReferral_def Let_def
    by (intro usersValid_modifyUser usersValid_addUser assms(2,3)) simp_all
qed

lemma usersValid_addReferral:
  assumes "usersValid (storage n)"
  shows "usersValid (storage (snd (addReferral n r c t)))"
proof -
  have i: "usersValid (storage (ensureInitialized n))"
    using assms
    by (auto simp: ensureInitialized_def initialize_def storage_initialize_def usersValid_def)
  from addReferral_cases[of n r c t] show ?thesis
    using i by (auto simp: usersValid_storage_addReferral)
qed

lemma usersValid_addReferrals:
  "usersValid (storage n) \<Longrightarrow> usersValid (storage (addReferrals n calls))"
  by (induction n calls rule: addReferrals.induct) (simp_all add: usersValid_addReferral)

lemma usersValid_built:
  assumes "n = addReferrals (newReferralNetwork cfg None) calls"
  shows "usersValid (storage (ensureInitialized n))"
proof -
  have "usersValid (storage (newReferralNetwork cfg None))"
    by (simp add: usersValid_def newReferralNetwork_def newStorage_def)
  then have "usersValid (storage n)" unfolding assms by (rule usersValid_addReferrals)
  then show ?thesis
    by (auto simp: ensureInitialized_def initialize_def storage_initialize_def usersValid_def)
qed


lemma usersValid_children:
  assumes "usersValid (storage (ensureInitialized n))"
  shows "children n x = getDirectReferrals (storage (ensureInitialized n)) x"
proof (cases "isValidUserId x")
  case True
  then show ?thesis by (simp add: children_def directReferrals'_def Let_def)
next
  case False
  have "map_of (users (storage (ensureInitialized n))) x = None"
  proof (rule ccontr)
    assume "map_of (users (storage (ensureInitialized n))) x \<noteq> None"
    then obtain node where "(x, node) \<in> set (users (storage (ensureInitialized n)))"
      by (auto dest: map_of_SomeD)
    then show False using assms False unfolding usersValid_def by fastforce
  qed
  then show ?thesis using False
    by (simp add: children_def directReferrals'_def Let_def getDirectReferrals_def)
qed

section \<open>Ranking by reach\<close>
















section \<open>The cycle check and self-referrals\<close>

lemma validate_self:
  assumes "\<not> allowCycles cfg"
  shows "\<exists>e. validateReferralConstraints cfg s a a = Inl e
       \<and> errorType e \<in> {SELF_REFERRAL, MULTIPLE_REFERRERS, CYCLE_DETECTED}
       \<and> (allowSelfReferrals cfg
            \<and> (allowMultipleReferrers cfg \<or> storage_getParent s a \<in> {None, Some a})
            \<longrightarrow> errorType e = CYCLE_DETECTED)"
proof (cases "allowSelfReferrals cfg")
  case False
  then show ?thesis by (simp add: validateReferralConstraints_def)
next
  case self: True
  show ?thesis
  proof (cases "\<not> allowMultipleReferrers cfg \<and>
              (case storage_getParent s a of None \<Rightarrow> False | Some p \<Rightarrow> p \<noteq> a)")
    case True
    then show ?thesis using self
      by (auto simp: validateReferralConstraints_def split: option.splits)
  next
    case False
    then have "validateReferralConstraints cfg s a a
        = Inl (ReferralError CYCLE_DETECTED ''Adding this referral would create a cycle'')"
      using self assms
      by (simp add: validateReferralConstraints_def wouldCreateCycle_def canReach_self)
    then show ?thesis by simp
  qed
qed

lemma wouldCreateCycle_iff:
  "wouldCreateCycle s ref cand = ((cand, ref) \<in> (edges s)\<^sup>*)"
  by (simp add: wouldCreateCycle_def canReach_iff)

lemma wouldCreateCycle_closes_cycle:
  assumes "acyclic (edges s)"
  shows "wouldCreateCycle s ref cand = (\<not> acyclic (edges (storage_addReferral s ref cand t)))"
  using assms by (simp add: wouldCreateCycle_iff edges_storage_addReferral acyclic_insert)

text \<open>
  Claim C6. The reachability check runs on the store before anything is written:
  \<open>wouldCreateCycle(referrer, candidate)\<close> holds exactly when the referrer is reachable
  from the candidate by zero or more edges, which in an acyclic store is exactly when the
  new edge would close a cycle. \<open>canReach(a, a)\<close> holds by the path of no edges, so with
  \<open>allowCycles = false\<close> a self-referral \<open>addReferral(a, a)\<close> of a valid identifier fails
  under every setting of the other toggles and writes nothing; when self-referrals are
  allowed and the multiple-referrer check passes, the failure is \<open>CYCLE_DETECTED\<close>.
\<close>

theorem self_referral_rejected_by_cycle_check:
  assumes "\<not> allowCycles (config n)" and "isValidUserId a"
  shows "canReach (storage (ensureInitialized n)) a a
       \<and> (\<exists>e. addReferral n a a now = (Inl e, ensureInitialized n)
              \<and> errorType e \<in> {SELF_REFERRAL, MULTIPLE_REFERRERS, CYCLE_DETECTED}
              \<and> (allowSelfReferrals (config n)
                   \<and> (allowMultipleReferrers (config n)
                        \<or> storage_getParent (storage (ensureInitialized n)) a \<in> {None, Some a})
                   \<longrightarrow> errorType e = CYCLE_DETECTED))
       \<and> wouldCreateCycle s ref cand = ((cand, ref) \<in> (edges s)\<^sup>*)
       \<and> (acyclic (edges s) \<longrightarrow>
            wouldCreateCycle s ref cand
              = (\<not> acyclic (edges (storage_addReferral s ref cand t))))"
proof -
  obtain e where e:
    "validateReferralConstraints (config n) (storage (ensureInitialized n)) a a = Inl e"
    "errorType e \<in> {SELF_REFERRAL, MULTIPLE_REFERRERS, CYCLE_DETECTED}"
    "allowSelfReferrals (config n)
       \<and> (allowMultipleReferrers (config n)
            \<or> storage_getParent (storage (ensureInitialized n)) a \<in> {None, Some a})
     \<longrightarrow> errorType e = CYCLE_DETECTED"
    using validate_self[OF assms(1)] by blast
  have "addReferral n a a now = (Inl e, ensureInitialized n)"
    using addReferral_rejected[OF validateReferralInput_valid[OF assms(2) assms(2)] e(1)] .
  then have "\<exists>e. addReferral n a a now = (Inl e, ensureInitialized n)
              \<and> errorType e \<in> {SELF_REFERRAL, MULTIPLE_REFERRERS, CYCLE_DETECTED}
              \<and> (allowSelfReferrals (config n)
                   \<and> (allowMultipleReferrers (config n)
                        \<or> storage_getParent (storage (ensureInitialized n)) a \<in> {None, Some a})
                   \<longrightarrow> errorType e = CYCLE_DETECTED)"
    using e(2,3) by blast
  then show ?thesis
    using canReach_self wouldCreateCycle_iff wouldCreateCycle_closes_cycle by blast
qed

theorem self_referral_rejected_by_cycle_check_witness:
  "allowSelfReferrals (config selfNetwork)
   \<and> (\<exists>e. addReferral selfNetwork ''Alice'' ''Alice'' 1 = (Inl e, ensureInitialized selfNetwork)
          \<and> errorType e = CYCLE_DETECTED)"
proof -
  have 1: "\<not> allowCycles (config selfNetwork)" by code_simp
  have 2: "isValidUserId ''Alice''" by code_simp
  have 3: "allowSelfReferrals (config selfNetwork)" by code_simp
  have 4: "storage_getParent (storage (ensureInitialized selfNetwork)) ''Alice'' = None"
    by code_simp
  show ?thesis
    using self_referral_rejected_by_cycle_check[OF 1 2, where now=1
        and s="storage selfNetwork" and ref="''Alice''" and cand="''Alice''" and t=1] 3 4
    by auto
qed

section \<open>\<open>getAllReferrals\<close>: exact on a forest, duplicates in a diamond\<close>

text \<open>
  On a store that satisfies the forest invariant the traversal lists every descendant
  once: the subtrees of two children of a user are disjoint, so the visited set never
  stops the search, and no user is pushed twice.
\<close>

lemma descendants_children:
  "descendants s u = (\<Union>c \<in> set (getDirectReferrals s u). subtree s c)"
proof -
  have "(edges s)\<^sup>+ `` {u} = (edges s)\<^sup>* `` ((edges s) `` {u})"
    by (auto simp: trancl_unfold_left relcomp_unfold Image_def)
  also have "(edges s) `` {u} = set (getDirectReferrals s u)"
    by (auto simp: edges_def)
  finally show ?thesis unfolding descendants_def subtree_def by blast
qed

lemma subtree_descendants: "subtree s u = insert u (descendants s u)"
  unfolding subtree_def descendants_def by (auto simp: rtrancl_eq_or_trancl)

lemma forest_not_in_own_descendants:
  "acyclic (edges s) \<Longrightarrow> u \<notin> descendants s u"
  by (auto simp: descendants_def acyclic_def)

lemma forest_siblings_disjoint:
  assumes f: "forestStore s" and c1: "(p, c1) \<in> edges s" and c2: "(p, c2) \<in> edges s"
    and neq: "c1 \<noteq> c2"
  shows "subtree s c1 \<inter> subtree s c2 = {}"
proof (rule ccontr)
  assume "subtree s c1 \<inter> subtree s c2 \<noteq> {}"
  then obtain x where x1: "(c1, x) \<in> (edges s)\<^sup>*" and x2: "(c2, x) \<in> (edges s)\<^sup>*"
    unfolding subtree_def by blast
  have sv: "single_valued ((edges s)\<inverse>)" by (rule forestStore_single_valued[OF f])
  have ac: "acyclic (edges s)" using f by (simp add: forestStore_def)
  have "(x, c1) \<in> ((edges s)\<inverse>)\<^sup>*" "(x, c2) \<in> ((edges s)\<inverse>)\<^sup>*"
    using x1 x2 by (simp_all add: rtrancl_converse)
  from single_valued_confluent[OF sv this]
  have "(c1, c2) \<in> ((edges s)\<inverse>)\<^sup>* \<or> (c2, c1) \<in> ((edges s)\<inverse>)\<^sup>*" .
  then have or: "(c2, c1) \<in> (edges s)\<^sup>* \<or> (c1, c2) \<in> (edges s)\<^sup>*"
    by (simp add: rtrancl_converse)
  have no: "(a, b) \<notin> (edges s)\<^sup>*" if "(p, a) \<in> edges s" "(p, b) \<in> edges s" "a \<noteq> b" for a b
  proof
    assume "(a, b) \<in> (edges s)\<^sup>*"
    then have "(a, b) \<in> (edges s)\<^sup>+" using that(3) by (simp add: rtrancl_eq_or_trancl)
    then obtain y where y: "(a, y) \<in> (edges s)\<^sup>*" "(y, b) \<in> edges s"
      by (meson tranclD2)
    have "y = p" using sv y(2) that(2) unfolding single_valued_def by blast
    then have "(p, p) \<in> (edges s)\<^sup>+" using y(1) that(1) by (simp add: rtrancl_into_trancl2)
    then show False using ac unfolding acyclic_def by blast
  qed
  show False using or no[OF c1 c2 neq] no[OF c2 c1 neq[symmetric]] by blast
qed

lemma dfs_forest:
  "forestStore s \<Longrightarrow> subtree s u \<inter> set (fst st) = {} \<Longrightarrow>
   set (fst (dfs s u st)) = set (fst st) \<union> subtree s u
   \<and> (\<exists>L. snd (dfs s u st) = snd st @ L \<and> distinct L \<and> set L = descendants s u)"
  "forestStore s \<Longrightarrow> (\<exists>p pre. getDirectReferrals s p = pre @ cs) \<Longrightarrow>
   (\<Union>c \<in> set cs. subtree s c) \<inter> set (fst st) = {} \<Longrightarrow>
   set (fst (dfs_for s cs st)) = set (fst st) \<union> (\<Union>c \<in> set cs. subtree s c)
   \<and> (\<exists>L. snd (dfs_for s cs st) = snd st @ L \<and> distinct L
          \<and> set L = (\<Union>c \<in> set cs. subtree s c))"
proof (induction s u st and s cs st rule: dfs_dfs_for.induct)
  case (1 s cur visited result)
  have ac: "acyclic (edges s)" using 1(2) by (simp add: forestStore_def)
  have nv: "cur \<notin> set visited" using 1(3) by (auto simp: subtree_def)
  show ?case
  proof (cases "map_of (users s) cur")
    case None
    then have "getDirectReferrals s cur = []" by (simp add: getDirectReferrals_def)
    then have d: "descendants s cur = {}" by (simp add: descendants_children)
    have "dfs s cur (visited, result) = (visited @ [cur], result)" using nv None by simp
    then show ?thesis using d by (simp add: subtree_descendants)
  next
    case (Some node)
    then have ch: "getDirectReferrals s cur = directReferrals node"
      by (simp add: getDirectReferrals_def)
    have d: "descendants s cur = (\<Union>c \<in> set (directReferrals node). subtree s c)"
      by (simp add: descendants_children ch)
    have run: "dfs s cur (visited, result)
        = dfs_for s (directReferrals node) (visited @ [cur], result)"
      using nv Some by simp
    have p1: "\<exists>p pre. getDirectReferrals s p = pre @ directReferrals node"
      using ch by (metis append_Nil)
    have "descendants s cur \<inter> set visited = {}"
      using 1(3) by (auto simp: subtree_descendants)
    moreover have "cur \<notin> descendants s cur" by (rule forest_not_in_own_descendants[OF ac])
    ultimately have p2: "(\<Union>c \<in> set (directReferrals node). subtree s c)
        \<inter> set (fst (visited @ [cur], result)) = {}"
      unfolding d[symmetric] by auto
    from 1(1)[OF nv Some 1(2) p1 p2] obtain L where
      L: "set (fst (dfs_for s (directReferrals node) (visited @ [cur], result)))
            = set (visited @ [cur]) \<union> descendants s cur"
        "snd (dfs_for s (directReferrals node) (visited @ [cur], result)) = result @ L"
        "distinct L" "set L = descendants s cur"
      unfolding d[symmetric] by auto
    show ?thesis unfolding run using L by (auto simp: subtree_descendants)
  qed
next
  case (2 s st)
  then show ?case by simp
next
  case (3 s childId rest visited result)
  note f = 3(3)
  have ac: "acyclic (edges s)" using f by (simp add: forestStore_def)
  obtain p pre where p: "getDirectReferrals s p = pre @ childId # rest" using 3(4) by blast
  have dist: "distinct (pre @ childId # rest)" using f p unfolding forestStore_def by metis
  have edge: "(p, c) \<in> edges s" if "c \<in> set (childId # rest)" for c
    using that p by (auto simp: edges_def)
  have disj: "subtree s childId \<inter> subtree s c = {}" if "c \<in> set rest" for c
  proof -
    have "childId \<noteq> c" using dist that by auto
    then show ?thesis
      using forest_siblings_disjoint[OF f edge[of childId] edge[of c]] that by simp
  qed
  define st1 where "st1 = dfs s childId (visited, result @ [childId])"
  have q1: "subtree s childId \<inter> set (fst (visited, result @ [childId])) = {}"
    using 3(5) by auto
  from 3(1)[OF f q1] obtain L1 where
    L1: "set (fst st1) = set visited \<union> subtree s childId"
      "snd st1 = (result @ [childId]) @ L1" "distinct L1" "set L1 = descendants s childId"
    unfolding st1_def by auto
  have r1: "\<exists>p pre. getDirectReferrals s p = pre @ rest"
    using p by (metis append.assoc append_Cons append_Nil)
  have r2: "(\<Union>c \<in> set rest. subtree s c) \<inter> set (fst st1) = {}"
    unfolding L1(1) using 3(5) disj by auto
  from 3(2)[OF f r1 r2[unfolded st1_def]] obtain L2 where
    L2: "set (fst (dfs_for s rest st1)) = set (fst st1) \<union> (\<Union>c \<in> set rest. subtree s c)"
      "snd (dfs_for s rest st1) = snd st1 @ L2" "distinct L2"
      "set L2 = (\<Union>c \<in> set rest. subtree s c)"
    unfolding st1_def by auto
  have run: "dfs_for s (childId # rest) (visited, result) = dfs_for s rest st1"
    by (simp add: st1_def)
  have n1: "childId \<notin> set L1" unfolding L1(4) by (rule forest_not_in_own_descendants[OF ac])
  have insub: "childId \<in> subtree s childId" by (simp add: subtree_def)
  have n2: "childId \<notin> set L2" unfolding L2(4) using disj insub by auto
  have n3: "set L1 \<inter> set L2 = {}"
    unfolding L1(4) L2(4) using disj by (auto simp: subtree_descendants)
  have dL: "distinct (childId # L1 @ L2)" using L1(3) L2(3) n1 n2 n3 by auto
  have sL: "set (childId # L1 @ L2) = (\<Union>c \<in> set (childId # rest). subtree s c)"
  proof -
    have "set (childId # L1 @ L2) = insert childId (set L1 \<union> set L2)" by simp
    also have "\<dots> = subtree s childId \<union> (\<Union>c \<in> set rest. subtree s c)"
      unfolding L1(4) L2(4) by (simp add: subtree_descendants)
    finally show ?thesis by simp
  qed
  have "snd (dfs_for s rest st1) = result @ (childId # L1 @ L2)"
    unfolding L2(2) L1(2) by simp
  moreover have "set (fst (dfs_for s rest st1))
      = set visited \<union> (\<Union>c \<in> set (childId # rest). subtree s c)"
    unfolding L2(1) L1(1) by auto
  ultimately show ?case unfolding run using dL sL by (metis fst_conv snd_conv)
qed

lemma getAllReferrals_forest:
  assumes "forestStore s"
  shows "distinct (getAllReferrals s u) \<and> set (getAllReferrals s u) = (edges s)\<^sup>+ `` {u}"
  using dfs_forest(1)[OF assms, of u "([], [])"]
  by (auto simp: getAllReferrals_def descendants_def)

lemma getAllReferrals_default_config:
  "distinct (getAllReferrals (storage (addReferrals (newReferralNetwork defaultConfig None) calls)) u)
   \<and> set (getAllReferrals (storage (addReferrals (newReferralNetwork defaultConfig None) calls)) u)
       = (edges (storage (addReferrals (newReferralNetwork defaultConfig None) calls)))\<^sup>+ `` {u}"
proof -
  have "forestStore (storage (addReferrals (newReferralNetwork defaultConfig None) calls))"
    using forestNetwork_addReferrals[OF forestNetwork_new] by (simp add: forestNetwork_def)
  then show ?thesis by (rule getAllReferrals_forest)
qed

lemma getAllReferrals_leaf:
  "getDirectReferrals s uid = [] \<Longrightarrow> getAllReferrals s uid = []"
  by (simp add: getAllReferrals_def getDirectReferrals_def split: option.splits)

text \<open>
  Claim C7. With several referrers allowed, the four referrals of the diamond all succeed,
  and \<open>allReferrals("a")\<close> is \<open>b, d, c, d\<close>: the traversal pushes a child onto the result
  before it looks at the visited set, so \<open>d\<close>, reached through \<open>b\<close> and through \<open>c\<close>,
  is listed twice and counted twice in the reach of \<open>a\<close>, which has three descendants.
  (With the default configuration the list has no duplicate and holds exactly the
  descendants, by \<open>getAllReferrals_default_config\<close>; for an unknown user and for a user
  without children it is empty, by \<open>getAllReferrals_leaf\<close>.)
\<close>

theorem getAllReferrals_diamond_duplicate:
  "addReferrals_results (newReferralNetwork (defaultConfig\<lparr>allowMultipleReferrers := True\<rparr>) None)
       diamondCalls = [Inr (), Inr (), Inr (), Inr ()]
   \<and> allReferrals diamondNetwork ''a'' = Inr [''b'', ''d'', ''c'', ''d'']
   \<and> \<not> distinct (getAllReferrals (storage diamondNetwork) ''a'')
   \<and> calculateReach diamondNetwork ''a'' = Inr 4"
proof -
  have "addReferrals_results
      (newReferralNetwork (defaultConfig\<lparr>allowMultipleReferrers := True\<rparr>) None) diamondCalls
      = [Inr (), Inr (), Inr (), Inr ()]"
    by code_simp
  moreover have "allReferrals diamondNetwork ''a'' = Inr [''b'', ''d'', ''c'', ''d'']"
    by code_simp
  moreover have "getAllReferrals (storage diamondNetwork) ''a'' = [''b'', ''d'', ''c'', ''d'']"
    by code_simp
  moreover have "calculateReach diamondNetwork ''a'' = Inr 4" by code_simp
  ultimately show ?thesis by simp
qed

section \<open>Statistics under a key collision\<close>

text \<open>
  Claim C8. With the default configuration the referrals \<open>a:b\<close> to \<open>c\<close> and \<open>a\<close> to
  \<open>b:c\<close> both succeed and both have the key \<open>a:b:c\<close>, so the second overwrites the
  first in the referrals map. The statistics then count four users, one referral and an
  average of one half, which is not the quotient of the referrals and the users.
\<close>

theorem getNetworkStats_key_collision:
  "addReferrals_results (newReferralNetwork defaultConfig None) collidingCalls = [Inr (), Inr ()]
   \<and> getNetworkStats collidingNetwork =
       Inr \<lparr>totalUsers = 4, totalReferrals = 1, maxDepth = 1, averageReferralsPerUser = 1 / 2\<rparr>
   \<and> averageReferralsPerUser (storage_getNetworkStats (storage collidingNetwork))
       \<noteq> real (totalReferrals (storage_getNetworkStats (storage collidingNetwork)))
         / real (totalUsers (storage_getNetworkStats (storage collidingNetwork)))"
proof -
  have "addReferrals_results (newReferralNetwork defaultConfig None) collidingCalls
      = [Inr (), Inr ()]"
    by code_simp
  moreover have "getNetworkStats collidingNetwork =
      Inr \<lparr>totalUsers = 4, totalReferrals = 1, maxDepth = 1, averageReferralsPerUser = 1 / 2\<rparr>"
    by code_simp
  moreover have "storage_getNetworkStats (storage collidingNetwork) =
      \<lparr>totalUsers = 4, totalReferrals = 1, maxDepth = 1, averageReferralsPerUser = 1 / 2\<rparr>"
    by code_simp
  ultimately show ?thesis by simp
qed

text \<open>
  The depth search of one user shares its visited set among the children: in the chain
  network \<open>c\<close> is first explored as a child of \<open>a\<close>, so the branch over \<open>b\<close> stops at
  \<open>c\<close>, and \<open>maxDepth\<close> is 2 although the chain from \<open>a\<close> over \<open>b\<close> and \<open>c\<close> to
  \<open>d\<close> has three edges.
\<close>

lemma maxDepth_chain_shared_visited:
  "addReferrals_results
       (newReferralNetwork (defaultConfig\<lparr>allowMultipleReferrers := True\<rparr>) None) chainCalls
     = [Inr (), Inr (), Inr (), Inr ()]
   \<and> maxDepth (storage_getNetworkStats (storage chainNetwork)) = 2"
proof -
  have "addReferrals_results
      (newReferralNetwork (defaultConfig\<lparr>allowMultipleReferrers := True\<rparr>) None) chainCalls
      = [Inr (), Inr (), Inr (), Inr ()]"
    by code_simp
  moreover have "maxDepth (storage_getNetworkStats (storage chainNetwork)) = 2"
    by code_simp
  ultimately show ?thesis by simp
qed

section \<open>\<open>findShortestPath\<close> returns a shortest path\<close>

lemma isPath_single: "isPath n s s [s]"
  by (simp add: isPath_def)

lemma isPath_snoc:
  "isPath n s x p \<Longrightarrow> y \<in> set (children n x) \<Longrightarrow> isPath n s y (p @ [y])"
  by (auto simp: isPath_def successively_append_iff)

lemma isPath_butlast:
  assumes "isPath n s t (p @ [y])" and "p \<noteq> []"
  shows "isPath n s (last p) p \<and> y \<in> set (children n (last p))"
  using assms by (auto simp: isPath_def successively_append_iff)

lemma findShortestPath_for_Inl:
  "findShortestPath_for target path cs st = Inl found \<Longrightarrow>
   found = path @ [target] \<and> target \<in> set cs"
  by (induction target path cs st rule: findShortestPath_for.induct) (auto split: if_splits)

lemma findShortestPath_for_Inr:
  "findShortestPath_for target path cs (q, v) = Inr (q', v') \<Longrightarrow>
   target \<notin> set cs \<and> set v' = set v \<union> set cs
   \<and> (\<exists>new. q' = q @ new \<and> distinct (map fst new)
         \<and> fst ` set new = set cs - set v
         \<and> (\<forall>e \<in> set new. snd e = path @ [fst e]))"
proof (induction cs arbitrary: q v)
  case Nil
  then show ?case by simp
next
  case (Cons c cs)
  have neq: "c \<noteq> target" using Cons.prems by (auto split: if_splits)
  show ?case
  proof (cases "c \<in> set v")
    case True
    then have "findShortestPath_for target path cs (q, v) = Inr (q', v')"
      using Cons.prems neq by simp
    from Cons.IH[OF this] obtain new where
      "target \<notin> set cs" "set v' = set v \<union> set cs" "q' = q @ new" "distinct (map fst new)"
      "fst ` set new = set cs - set v" "\<forall>e \<in> set new. snd e = path @ [fst e]"
      by blast
    then show ?thesis using True neq by auto
  next
    case False
    then have "findShortestPath_for target path cs (q @ [(c, path @ [c])], v @ [c]) = Inr (q', v')"
      using Cons.prems neq by simp
    from Cons.IH[OF this] obtain new where n:
      "target \<notin> set cs" "set v' = set (v @ [c]) \<union> set cs" "q' = (q @ [(c, path @ [c])]) @ new"
      "distinct (map fst new)"
      "fst ` set new = set cs - set (v @ [c])" "\<forall>e \<in> set new. snd e = path @ [fst e]"
      by blast
    let ?new = "(c, path @ [c]) # new"
    have 1: "q' = q @ ?new" using n(3) by simp
    have 2: "distinct (map fst ?new)" using n(4,5) by auto
    have 3: "fst ` set ?new = set (c # cs) - set v" using n(5) False by auto
    have 4: "\<forall>e \<in> set ?new. snd e = path @ [fst e]" using n(6) by simp
    have 5: "target \<notin> set (c # cs)" using n(1) neq by simp
    have 6: "set v' = set v \<union> set (c # cs)" using n(2) by auto
    show ?thesis using 1 2 3 4 5 6 by blast
  qed
qed

lemma bfsInv_init:
  assumes "source \<noteq> target"
  shows "bfsInv n source target [(source, [source])] [source]"
proof -
  have "y = source" if "isPath n source y r" "length r \<le> 1" for y r
  proof -
    have "r \<noteq> []" "hd r = source" "last r = y" using that(1) by (simp_all add: isPath_def)
    then show ?thesis using that(2) by (cases r) auto
  qed
  moreover have "1 \<le> length r" if "isPath n source y r" for y r
    using that by (cases r) (auto simp: isPath_def)
  ultimately show ?thesis
    using assms unfolding bfsInv_def by (auto simp: isPath_single)
qed

lemma bfsInv_found:
  assumes inv: "bfsInv n source target ((uid, path) # queue) visited"
    and t: "target \<in> set (children n uid)"
  shows "isPath n source target (path @ [target])
       \<and> (\<forall>r. isPath n source target r \<longrightarrow> length (path @ [target]) \<le> length r)"
proof (intro conjI allI impI)
  have p: "isPath n source uid path" using inv unfolding bfsInv_def by simp
  show "isPath n source target (path @ [target])" by (rule isPath_snoc[OF p t])
next
  fix r assume r: "isPath n source target r"
  have tv: "target \<notin> set visited" using inv unfolding bfsInv_def by blast
  have sv: "uid \<in> set visited" and p: "isPath n source uid path"
    using inv unfolding bfsInv_def by simp_all
  have minq: "length path \<le> length (snd e)" if "e \<in> set ((uid, path) # queue)" for e
    using inv that unfolding bfsInv_def by auto
  have closed: "set (children n x) \<subseteq> set visited"
    if "x \<in> set visited" "x \<notin> fst ` set ((uid, path) # queue)" for x
    using inv that unfolding bfsInv_def by blast
  have front: "y \<in> set visited \<and> (\<forall>e \<in> set ((uid, path) # queue). fst e = y \<longrightarrow> length (snd e) \<le> length q)"
    if "isPath n source y q" "target \<notin> set q" "length q \<le> length path" for y q
    using inv that unfolding bfsInv_def by simp
  show "length (path @ [target]) \<le> length r"
  proof (rule ccontr)
    assume "\<not> length (path @ [target]) \<le> length r"
    then have short: "length r \<le> length path" by simp
    define pre where "pre = takeWhile (\<lambda>x. x \<noteq> target) r"
    define post where "post = dropWhile (\<lambda>x. x \<noteq> target) r"
    have rne: "r \<noteq> []" and hr: "hd r = source" and lr: "last r = target"
      and sr: "successively (\<lambda>x y. y \<in> set (children n x)) r"
      using r by (simp_all add: isPath_def)
    have split: "r = pre @ post" by (simp add: pre_def post_def)
    have "target \<in> set r" using rne lr last_in_set by metis
    then have "post \<noteq> []" unfolding post_def by (simp add: dropWhile_eq_Nil_conv)
    moreover have "hd post = target"
      using \<open>post \<noteq> []\<close> hd_dropWhile[of "\<lambda>x. x \<noteq> target" r] unfolding post_def by blast
    ultimately obtain rest where post: "post = target # rest" by (cases post) auto
    have st: "source \<noteq> target"
      using inv tv unfolding bfsInv_def by blast
    have prene: "pre \<noteq> []"
      using rne hr st unfolding pre_def by (cases r) auto
    have tpre: "target \<notin> set pre" unfolding pre_def by (auto dest: set_takeWhileD)
    have hpre: "hd pre = source" using split prene hr by (metis hd_append2)
    have spre: "successively (\<lambda>x y. y \<in> set (children n x)) pre"
      and edge: "target \<in> set (children n (last pre))"
      using sr prene unfolding split post by (simp_all add: successively_append_iff)
    have ppre: "isPath n source (last pre) pre"
      using prene hpre spre by (simp add: isPath_def)
    have lpre: "length pre < length path" using short unfolding split post by simp
    have f: "last pre \<in> set visited"
      "\<forall>e \<in> set ((uid, path) # queue). fst e = last pre \<longrightarrow> length (snd e) \<le> length pre"
      using front[OF ppre tpre] lpre by simp_all
    have "last pre \<notin> fst ` set ((uid, path) # queue)"
    proof
      assume "last pre \<in> fst ` set ((uid, path) # queue)"
      then obtain e where e: "e \<in> set ((uid, path) # queue)" "fst e = last pre"
        by (metis imageE)
      then have "length (snd e) \<le> length pre" using f(2) by blast
      moreover have "length path \<le> length (snd e)" by (rule minq[OF e(1)])
      ultimately show False using lpre by simp
    qed
    then have "target \<in> set visited" using closed[OF f(1)] edge by blast
    then show False using tv by simp
  qed
qed

lemma sorted_wrt_const:
  "(\<forall>e \<in> set xs. f e = (k::nat)) \<Longrightarrow> sorted_wrt (\<lambda>a b. f a \<le> f b) xs"
  by (induction xs) auto

lemma isPath_length: "isPath n s t p \<Longrightarrow> 1 \<le> length p"
  by (cases p) (auto simp: isPath_def)

lemma bfsInv_step:
  assumes inv: "bfsInv n source target ((uid, path) # queue) visited"
    and cs: "cs = children n uid" and t: "target \<notin> set cs"
    and v': "set v' = set visited \<union> set cs"
    and q': "q' = queue @ new" and dn: "distinct (map fst new)"
    and fn: "fst ` set new = set cs - set visited"
    and pn: "\<forall>e \<in> set new. snd e = path @ [fst e]"
  shows "bfsInv n source target q' v'"
proof -
  define L where "L = length path"
  have a1: "isPath n source (fst e) (snd e) \<and> fst e \<in> set visited"
    if "e \<in> set ((uid, path) # queue)" for e
    using inv that unfolding bfsInv_def by blast
  have a2: "source \<in> set visited" "target \<notin> set visited"
    using inv unfolding bfsInv_def by blast+
  have a3: "sorted_wrt (\<lambda>a b. length (snd a) \<le> length (snd b)) ((uid, path) # queue)"
    using inv unfolding bfsInv_def by blast
  have a4: "length (snd b) \<le> Suc L" if "b \<in> set ((uid, path) # queue)" for b
  proof -
    have "\<forall>a \<in> set ((uid, path) # queue). \<forall>b \<in> set ((uid, path) # queue).
        length (snd b) \<le> Suc (length (snd a))"
      using inv unfolding bfsInv_def by blast
    then have "length (snd b) \<le> Suc (length (snd (uid, path)))" using that by (metis list.set_intros(1))
    then show ?thesis by (simp add: L_def)
  qed
  have a5: "set (children n x) \<subseteq> set visited"
    if "x \<in> set visited" "x \<notin> fst ` set ((uid, path) # queue)" for x
    using inv that unfolding bfsInv_def by blast
  have a6: "distinct (map fst ((uid, path) # queue))"
    using inv unfolding bfsInv_def by blast
  have a7: "y \<in> set visited
      \<and> (\<forall>e \<in> set ((uid, path) # queue). fst e = y \<longrightarrow> length (snd e) \<le> length r)"
    if "isPath n source y r" "target \<notin> set r" "length r \<le> L" for y r
    using inv that unfolding bfsInv_def L_def by simp
  have puid: "isPath n source uid path" using a1[of "(uid, path)"] by simp
  have Lpos: "1 \<le> L" unfolding L_def by (rule isPath_length[OF puid])
  have lq: "L \<le> length (snd e) \<and> length (snd e) \<le> Suc L" if "e \<in> set queue" for e
    using a3 a4[of e] that by (auto simp: L_def)
  have ln: "length (snd e) = Suc L" if "e \<in> set new" for e
    using pn that by (simp add: L_def)
  have lq': "L \<le> length (snd e) \<and> length (snd e) \<le> Suc L" if "e \<in> set q'" for e
    using that lq ln unfolding q' by fastforce
  have newfst: "fst e \<in> set cs \<and> fst e \<notin> set visited" if "e \<in> set new" for e
    using fn that by blast
  have subv: "set visited \<subseteq> set v'" and subc: "set cs \<subseteq> set v'" using v' by auto
  have g1: "\<forall>e \<in> set q'. isPath n source (fst e) (snd e) \<and> fst e \<in> set v'"
  proof
    fix e assume "e \<in> set q'"
    then consider "e \<in> set queue" | "e \<in> set new" unfolding q' by auto
    then show "isPath n source (fst e) (snd e) \<and> fst e \<in> set v'"
    proof cases
      case 1
      then show ?thesis using a1[of e] subv by auto
    next
      case 2
      have "fst e \<in> set (children n uid)" using newfst[OF 2] cs by simp
      then have "isPath n source (fst e) (path @ [fst e])" by (rule isPath_snoc[OF puid])
      then show ?thesis using pn 2 newfst[OF 2] subc by auto
    qed
  qed
  have g2: "source \<in> set v' \<and> target \<notin> set v'" using a2 t v' by auto
  have sq: "sorted_wrt (\<lambda>a b. length (snd a) \<le> length (snd b)) queue" using a3 by simp
  have sn: "sorted_wrt (\<lambda>a b. length (snd a) \<le> length (snd b)) new"
    by (rule sorted_wrt_const[where k="Suc L"]) (simp add: ln)
  have g3: "sorted_wrt (\<lambda>a b. length (snd a) \<le> length (snd b)) q'"
    unfolding q' sorted_wrt_append using sq sn lq ln by auto
  have g4: "\<forall>a \<in> set q'. \<forall>b \<in> set q'. length (snd b) \<le> Suc (length (snd a))"
    using lq' by (meson le_SucI le_trans Suc_le_mono)
  have g5: "\<forall>x \<in> set v'. x \<notin> fst ` set q' \<longrightarrow> set (children n x) \<subseteq> set v'"
  proof (intro ballI impI)
    fix x assume xv: "x \<in> set v'" and xq: "x \<notin> fst ` set q'"
    have xn: "x \<notin> fst ` set new" and xo: "x \<notin> fst ` set queue" using xq unfolding q' by auto
    have "x \<in> set visited" using xv xn v' fn by blast
    show "set (children n x) \<subseteq> set v'"
    proof (cases "x = uid")
      case True
      then show ?thesis using cs subc by simp
    next
      case False
      then have "x \<notin> fst ` set ((uid, path) # queue)" using xo by simp
      then show ?thesis using a5[OF \<open>x \<in> set visited\<close>] subv by blast
    qed
  qed
  have qv: "fst ` set queue \<subseteq> set visited" using a1 by auto
  have g6: "distinct (map fst q')"
    unfolding q' using a6 dn qv fn by auto
  have hdmin: "length (snd (hd q')) \<le> length (snd e)" if "e \<in> set q'" for e
    using g3 that by (cases q') auto
  have g7: "\<forall>y r. isPath n source y r \<and> target \<notin> set r
                \<and> q' \<noteq> [] \<and> length r \<le> length (snd (hd q'))
              \<longrightarrow> y \<in> set v'
                  \<and> (\<forall>e \<in> set q'. fst e = y \<longrightarrow> length (snd e) \<le> length r)"
  proof (intro allI impI, elim conjE)
    fix y r
    assume p: "isPath n source y r" and tr: "target \<notin> set r" and ne: "q' \<noteq> []"
      and len: "length r \<le> length (snd (hd q'))"
    have hq: "hd q' \<in> set q'" using ne by simp
    have lenS: "length r \<le> Suc L" using len lq'[OF hq] by simp
    show "y \<in> set v' \<and> (\<forall>e \<in> set q'. fst e = y \<longrightarrow> length (snd e) \<le> length r)"
    proof (cases "length r \<le> L")
      case True
      have old: "y \<in> set visited"
        "\<forall>e \<in> set ((uid, path) # queue). fst e = y \<longrightarrow> length (snd e) \<le> length r"
        using a7[OF p tr True] by simp_all
      have "length (snd e) \<le> length r" if "e \<in> set q'" "fst e = y" for e
      proof -
        have "e \<notin> set new" using newfst[of e] that(2) old(1) by blast
        then have "e \<in> set queue" using that(1) unfolding q' by simp
        then show ?thesis using old(2) that(2) by simp
      qed
      then show ?thesis using old(1) subv by blast
    next
      case False
      then have lr: "length r = Suc L" using lenS by simp
      then have "length (snd (hd q')) = Suc L" using len lq'[OF hq] by simp
      then have allS: "length (snd e) = Suc L" if "e \<in> set q'" for e
        using hdmin[OF that] lq'[OF that] by simp
      have "r \<noteq> []" using lr by auto
      then obtain r0 where r: "r = r0 @ [y]"
        using p by (metis isPath_def snoc_eq_iff_butlast)
      have r0ne: "r0 \<noteq> []" using lr Lpos unfolding r by auto
      have p0: "isPath n source (last r0) r0" and edge: "y \<in> set (children n (last r0))"
        using isPath_butlast[OF p[unfolded r] r0ne] by simp_all
      have t0: "target \<notin> set r0" using tr unfolding r by simp
      have l0: "length r0 \<le> L" using lr unfolding r by simp
      have z: "last r0 \<in> set visited"
        "\<forall>e \<in> set ((uid, path) # queue). fst e = last r0 \<longrightarrow> length (snd e) \<le> length r0"
        using a7[OF p0 t0 l0] by simp_all
      have znq: "last r0 \<notin> fst ` set queue"
      proof
        assume "last r0 \<in> fst ` set queue"
        then obtain e where e: "e \<in> set queue" "fst e = last r0" by (metis imageE)
        then have "length (snd e) \<le> length r0" using z(2) by simp
        moreover have "length (snd e) = Suc L" using allS[of e] e(1) unfolding q' by simp
        ultimately show False using l0 by simp
      qed
      have "y \<in> set v'"
      proof (cases "last r0 = uid")
        case True
        then show ?thesis using edge cs subc by auto
      next
        case False
        then have "last r0 \<notin> fst ` set ((uid, path) # queue)" using znq by simp
        then show ?thesis using a5[OF z(1)] edge subv by blast
      qed
      then show ?thesis using allS lr by simp
    qed
  qed
  show ?thesis unfolding bfsInv_def using g1 g2 g3 g4 g5 g6 g7 by blast
qed

lemma findShortestPath_while_correct:
  "findShortestPath_while n target (queue, visited) = Some found \<Longrightarrow>
   bfsInv n source target queue visited \<Longrightarrow>
   isPath n source target found \<and> (\<forall>r. isPath n source target r \<longrightarrow> length found \<le> length r)"
proof (induction n target "(queue, visited)" arbitrary: queue visited
    rule: findShortestPath_while.induct)
  case (1 n target visited)
  then show ?case by simp
next
  case (2 n target uid path queue visited)
  note inv = 2(4)
  show ?case
  proof (cases "directReferrals' n uid")
    case (Inl e)
    then have cs: "[] = children n uid" by (simp add: children_def)
    have rec: "findShortestPath_while n target (queue, visited) = Some found"
      using 2(3) Inl by simp
    have "bfsInv n source target queue visited"
      by (rule bfsInv_step[OF inv cs, where new="[]"]) simp_all
    then show ?thesis using 2(1)[OF Inl rec] by blast
  next
    case (Inr cs)
    then have cs: "cs = children n uid" by (simp add: children_def)
    show ?thesis
    proof (cases "findShortestPath_for target path cs (queue, visited)")
      case (Inl f)
      then have "found = f" using 2(3) Inr by simp
      then have "found = path @ [target]" "target \<in> set (children n uid)"
        using findShortestPath_for_Inl[OF Inl] cs by simp_all
      then show ?thesis using bfsInv_found[OF inv] by blast
    next
      case (Inr st)
      obtain q' v' where st: "st = (q', v')" by (cases st)
      have rec: "findShortestPath_while n target (q', v') = Some found"
        using 2(3) \<open>directReferrals' n uid = Inr cs\<close> Inr st by simp
      from findShortestPath_for_Inr[OF Inr[unfolded st]] obtain new where
        n: "target \<notin> set cs" "set v' = set visited \<union> set cs" "q' = queue @ new"
        "distinct (map fst new)" "fst ` set new = set cs - set visited"
        "\<forall>e \<in> set new. snd e = path @ [fst e]"
        by blast
      have "bfsInv n source target q' v'"
        by (rule bfsInv_step[OF inv cs n])
      then show ?thesis
        using 2(2)[OF \<open>directReferrals' n uid = Inr cs\<close> Inr[unfolded st] rec] by blast
    qed
  qed
qed

lemma findShortestPath_shortest:
  assumes "findShortestPath n s t = Some p"
  shows "isShortestPath n s t p"
proof (cases "s = t")
  case True
  then have "p = [s]" using assms by (simp add: findShortestPath_def)
  then show ?thesis
    using True isPath_length[of n s t] by (auto simp: isShortestPath_def isPath_single)
next
  case False
  then have "findShortestPath_while n t ([(s, [s])], [s]) = Some p"
    using assms by (simp add: findShortestPath_def)
  from findShortestPath_while_correct[OF this bfsInv_init[OF False]]
  show ?thesis by (simp add: isShortestPath_def)
qed

lemma isPath_interior_has_child:
  assumes "successively (\<lambda>x y. y \<in> set (children n x)) p" and "u \<in> set (butlast p)"
  shows "children n u \<noteq> []"
  using assms
proof (induction p rule: induct_list012)
  case 1
  then show ?case by simp
next
  case (2 x)
  then show ?case by simp
next
  case (3 x y zs)
  then show ?case by (cases "u = x") auto
qed

lemma middleNodes_subset: "set (middleNodes p) \<subseteq> set (butlast p)"
  unfolding middleNodes_def by (cases p) (auto dest: in_set_butlastD)

lemma flowCentrality_pair_pos:
  assumes "flowCentrality_pair n u s t \<noteq> 0"
  shows "t \<noteq> u \<and> t \<noteq> s
       \<and> (\<exists>p. isShortestPath n s t p \<and> 3 \<le> length p \<and> u \<in> set (middleNodes p))"
proof -
  have tu: "t \<noteq> u" "t \<noteq> s" using assms by (auto simp: flowCentrality_pair_def)
  then obtain p where p: "findShortestPath n s t = Some p"
    using assms by (cases "findShortestPath n s t") (auto simp: flowCentrality_pair_def)
  then have "length p > 2 \<and> u \<in> set (middleNodes p)"
    using assms tu by (auto simp: flowCentrality_pair_def split: if_splits)
  then show ?thesis using tu findShortestPath_shortest[OF p] by auto
qed

lemma sum_list_zero: "(\<forall>x \<in> set xs. f x = (0::nat)) \<Longrightarrow> (\<Sum>x \<leftarrow> xs. f x) = 0"
  by (induction xs) auto

lemma children_subset_store:
  "set (children n x) \<subseteq> set (getDirectReferrals (storage (ensureInitialized n)) x)"
  by (cases "isValidUserId x") (simp_all add: children_def directReferrals'_def Let_def)

lemma built_children_store:
  assumes "n = addReferrals (newReferralNetwork cfg None) calls"
  shows "children (ensureInitialized n) x = getDirectReferrals (storage (ensureInitialized n)) x"
  using usersValid_children[of "ensureInitialized n" x] usersValid_built[OF assms]
  by (simp add: ensureInitialized_idem)

text \<open>
  Claim C9. The flow centrality of \<open>u\<close> is 0 when \<open>u\<close> is a leaf, that is has no
  direct referrals in the store, and also when no two users \<open>s\<close> and \<open>t\<close>, different from
  \<open>u\<close> and from each other, have a shortest directed path of at least two edges (three
  nodes) with \<open>u\<close> among its interior nodes. The paths are those of the graph that the
  search follows, whose edges are the child edges of the store in every network built by
  \<open>addReferral\<close> calls (\<open>built_children_store\<close>), and \<open>findShortestPath\<close> is proved to
  return a shortest one.
\<close>

theorem flowCentrality_boundary:
  assumes "getAllUsers n = Inr allUsers"
  shows "(getDirectReferrals (storage (ensureInitialized n)) u = []
          \<longrightarrow> calculateFlowCentrality n u = Inr 0)
       \<and> ((\<forall>s \<in> userId ` set allUsers. \<forall>t \<in> userId ` set allUsers. \<forall>p.
              s \<noteq> u \<and> t \<noteq> u \<and> s \<noteq> t
              \<and> isShortestPath (ensureInitialized n) s t p \<and> 3 \<le> length p
              \<longrightarrow> u \<notin> set (middleNodes p))
          \<longrightarrow> calculateFlowCentrality n u = Inr 0)"
proof (intro conjI impI)
  let ?n1 = "ensureInitialized n"
  have zero: "calculateFlowCentrality n u = Inr 0"
    if z: "\<And>s t. s \<in> userId ` set allUsers \<Longrightarrow> t \<in> userId ` set allUsers \<Longrightarrow> s \<noteq> u \<Longrightarrow>
            flowCentrality_pair ?n1 u s t = 0"
  proof -
    have inner: "(\<Sum>t \<leftarrow> map userId allUsers. flowCentrality_pair ?n1 u s t) = 0"
      if s: "s \<in> userId ` set allUsers" "s \<noteq> u" for s
    proof (rule sum_list_zero, rule ballI)
      fix t assume "t \<in> set (map userId allUsers)"
      then have "t \<in> userId ` set allUsers" by simp
      then show "flowCentrality_pair ?n1 u s t = 0" by (rule z[OF s(1) _ s(2)])
    qed
    have "(\<Sum>s \<leftarrow> map userId allUsers.
            if s = u then 0
            else (\<Sum>t \<leftarrow> map userId allUsers. flowCentrality_pair ?n1 u s t)) = 0"
    proof (rule sum_list_zero, rule ballI)
      fix s assume "s \<in> set (map userId allUsers)"
      then have "s \<in> userId ` set allUsers" by simp
      then show "(if s = u then 0
            else (\<Sum>t \<leftarrow> map userId allUsers. flowCentrality_pair ?n1 u s t)) = 0"
        using inner by (cases "s = u") simp_all
    qed
    then show ?thesis using assms by (simp add: calculateFlowCentrality_def)
  qed
  {
    assume leaf: "getDirectReferrals (storage ?n1) u = []"
    show "calculateFlowCentrality n u = Inr 0"
    proof (rule zero, rule ccontr)
      fix s t assume "flowCentrality_pair ?n1 u s t \<noteq> 0"
      from flowCentrality_pair_pos[OF this] obtain p where
        p: "isShortestPath ?n1 s t p" "u \<in> set (middleNodes p)" by blast
      have "u \<in> set (butlast p)" using p(2) middleNodes_subset by blast
      moreover have "successively (\<lambda>x y. y \<in> set (children ?n1 x)) p"
        using p(1) by (simp add: isShortestPath_def isPath_def)
      ultimately have "children ?n1 u \<noteq> []" by (rule isPath_interior_has_child[rotated])
      then show False
        using children_subset_store[of ?n1 u] leaf by (simp add: ensureInitialized_idem)
    qed
  }
  {
    assume none: "\<forall>s \<in> userId ` set allUsers. \<forall>t \<in> userId ` set allUsers. \<forall>p.
              s \<noteq> u \<and> t \<noteq> u \<and> s \<noteq> t
              \<and> isShortestPath ?n1 s t p \<and> 3 \<le> length p
              \<longrightarrow> u \<notin> set (middleNodes p)"
    show "calculateFlowCentrality n u = Inr 0"
    proof (rule zero, rule ccontr)
      fix s t assume st: "s \<in> userId ` set allUsers" "t \<in> userId ` set allUsers" "s \<noteq> u"
        and "flowCentrality_pair ?n1 u s t \<noteq> 0"
      from flowCentrality_pair_pos[OF this(4)] obtain p where
        p: "t \<noteq> u" "t \<noteq> s" "isShortestPath ?n1 s t p" "3 \<le> length p" "u \<in> set (middleNodes p)"
        by blast
      have "s \<noteq> u \<and> t \<noteq> u \<and> s \<noteq> t \<and> isShortestPath ?n1 s t p \<and> 3 \<le> length p"
        using st(3) p by simp
      then have "u \<notin> set (middleNodes p)"
        by (rule none[rule_format, OF st(1) st(2)])
      then show False using p(5) by simp
    qed
  }
qed

theorem flowCentrality_boundary_witness:
  "getDirectReferrals (storage (ensureInitialized demoNetwork)) ''Charlie'' = []
   \<and> calculateFlowCentrality demoNetwork ''Charlie'' = Inr 0
   \<and> getDirectReferrals (storage (ensureInitialized fullNetwork)) ''Alice'' = [''Bob'']
   \<and> calculateFlowCentrality fullNetwork ''Alice'' = Inr 0"
proof -
  have u1: "getAllUsers demoNetwork = Inr (storage_getAllUsers (storage demoNetwork))"
    by code_simp
  have leaf: "getDirectReferrals (storage (ensureInitialized demoNetwork)) ''Charlie'' = []"
    by code_simp
  have 1: "calculateFlowCentrality demoNetwork ''Charlie'' = Inr 0"
    using flowCentrality_boundary[OF u1, of "''Charlie''"] leaf by blast
  have u2: "getAllUsers fullNetwork = Inr (storage_getAllUsers (storage fullNetwork))"
    by code_simp
  have ids: "userId ` set (storage_getAllUsers (storage fullNetwork)) = {''Alice'', ''Bob''}"
    by code_simp
  have nonleaf: "getDirectReferrals (storage (ensureInitialized fullNetwork)) ''Alice'' = [''Bob'']"
    by code_simp
  have none: "\<forall>s \<in> userId ` set (storage_getAllUsers (storage fullNetwork)).
      \<forall>t \<in> userId ` set (storage_getAllUsers (storage fullNetwork)). \<forall>p.
        s \<noteq> ''Alice'' \<and> t \<noteq> ''Alice'' \<and> s \<noteq> t
        \<and> isShortestPath (ensureInitialized fullNetwork) s t p \<and> 3 \<le> length p
        \<longrightarrow> ''Alice'' \<notin> set (middleNodes p)"
    unfolding ids by simp
  have 2: "calculateFlowCentrality fullNetwork ''Alice'' = Inr 0"
    using flowCentrality_boundary[OF u2, of "''Alice''"] none by blast
  show ?thesis using leaf 1 nonleaf 2 by simp
qed

section \<open>The network size limit\<close>







end
